theory Spec2Isabelle
  imports Complex_Main
begin

section \<open>The query iterators of pkg/query/iter.go\<close>

text \<open>
  The file embeds the series set, the chunk series iterator, the bounded iterator and
  the replica deduplication of \<^verbatim>\<open>pkg/query/iter.go\<close>. A Go method with a pointer
  receiver becomes a function that takes the receiver's state and returns the new state
  next to the result.
\<close>

subsection \<open>Timestamps, samples and errors\<close>

text \<open>
  Timestamps are Go \<^verbatim>\<open>int64\<close>: integers kept in the signed 64-bit range, with the
  wrap-around of Go's arithmetic written out. Sample values are \<^verbatim>\<open>float64\<close>; the
  code of this file only carries them around, so they are modelled by reals.
\<close>

definition MinInt64 :: int where
  "MinInt64 = - 9223372036854775808"

definition MaxInt64 :: int where
  "MaxInt64 = 9223372036854775807"

definition wrap64 :: "int \<Rightarrow> int" where
  "wrap64 x = (x + 9223372036854775808) mod 18446744073709551616 - 9223372036854775808"

definition add64 :: "int \<Rightarrow> int \<Rightarrow> int" where
  "add64 x y = wrap64 (x + y)"

definition sub64 :: "int \<Rightarrow> int \<Rightarrow> int" where
  "sub64 x y = wrap64 (x - y)"

definition mul64 :: "int \<Rightarrow> int \<Rightarrow> int" where
  "mul64 x y = wrap64 (x * y)"

type_synonym sample = "int \<times> real"

datatype Aggr = Aggr_RAW | Aggr_COUNT | Aggr_SUM | Aggr_MIN | Aggr_MAX | Aggr_COUNTER

text \<open>A Go \<^verbatim>\<open>error\<close> is an \<open>error option\<close>, \<open>None\<close> for \<^verbatim>\<open>nil\<close>.\<close>

datatype error =
    UnexpectedAggregateType "Aggr list"
  | NoValidChunkFound
  | UnknownChunkEncoding nat
  | ReadError string

subsection \<open>Chunks and chunk cursors\<close>

text \<open>
  \<^verbatim>\<open>storepb.Chunk\<close> carries an encoding tag and a byte payload. The codec that reads
  the bytes is a library outside this repository; the payload is represented by what
  the codec reads out of it: the samples in order, and the read error (if any) that the
  cursor meets after them. A payload too short to hold the two-byte sample count, on
  which the codec's \<^verbatim>\<open>Iterator\<close> panics, has no representation.
\<close>

datatype Chunk_Encoding = Chunk_XOR | Chunk_Other nat

record Chunk =
  Type :: Chunk_Encoding
  Data :: "sample list \<times> error option"

record AggrChunk =
  MinTime :: int
  MaxTime :: int
  Raw :: "Chunk option"
  Count :: "Chunk option"
  Sum :: "Chunk option"
  Min' :: "Chunk option"
  Max' :: "Chunk option"
  Counter :: "Chunk option"

text \<open>
  A \<^verbatim>\<open>chunkenc.Iterator\<close> offers \<^verbatim>\<open>Next\<close>, \<^verbatim>\<open>At\<close> and \<^verbatim>\<open>Err\<close>. A cursor of
  that interface is a finite one: \<open>cur\<close> is what \<^verbatim>\<open>At\<close> returns, \<open>rest\<close> the samples
  still to come, \<open>err\<close> what \<^verbatim>\<open>Err\<close> returns, and \<open>pending\<close> the error that
  shows once \<open>rest\<close> is used up. The library does not say what \<^verbatim>\<open>At\<close> returns after
  a read error; the model leaves \<open>cur\<close> as it was.
\<close>

record chunk_it =
  cur :: sample
  rest :: "sample list"
  err :: "error option"
  pending :: "error option"

definition chunk_Next :: "chunk_it \<Rightarrow> bool \<times> chunk_it" where
  "chunk_Next c =
     (if err c \<noteq> None then (False, c)
      else case rest c of
             [] \<Rightarrow> (False, c\<lparr>err := pending c\<rparr>)
           | x # xs \<Rightarrow> (True, c\<lparr>cur := x, rest := xs\<rparr>))"

definition chunk_At :: "chunk_it \<Rightarrow> sample" where
  "chunk_At c = cur c"

definition chunk_Err :: "chunk_it \<Rightarrow> error option" where
  "chunk_Err c = err c"

text \<open>
  \<^verbatim>\<open>errSeriesIterator{err}\<close>: \<^verbatim>\<open>Next\<close> and \<^verbatim>\<open>Seek\<close> return false, \<^verbatim>\<open>At\<close>
  returns \<^verbatim>\<open>(0, 0)\<close> and \<^verbatim>\<open>Err\<close> returns the field. Used as a chunk cursor it is
  the finite cursor with no sample.
\<close>

definition errChunkIterator :: "error option \<Rightarrow> chunk_it" where
  "errChunkIterator e = \<lparr>cur = (0, 0), rest = [], err = e, pending = None\<rparr>"

text \<open>
  The cursor of a decoded XOR chunk. Its timestamp and value are fields of a Go struct
  that the constructor leaves at their zero values, so before the first \<^verbatim>\<open>Next\<close> its
  \<^verbatim>\<open>At\<close> returns \<^verbatim>\<open>(0, 0)\<close>, as the \<^verbatim>\<open>At\<close> of \<^verbatim>\<open>errSeriesIterator\<close> does.
\<close>

definition xorIterator :: "sample list \<times> error option \<Rightarrow> chunk_it" where
  "xorIterator d = \<lparr>cur = (0, 0), rest = fst d, err = None, pending = snd d\<rparr>"

definition EncXOR :: nat where
  "EncXOR = 1"

definition chunkEncoding :: "Chunk_Encoding \<Rightarrow> nat" where
  "chunkEncoding e = (case e of Chunk_XOR \<Rightarrow> EncXOR | Chunk_Other _ \<Rightarrow> 255)"

text \<open>\<^verbatim>\<open>chunkenc.FromData\<close> fails on every encoding but XOR.\<close>

definition FromData :: "nat \<Rightarrow> sample list \<times> error option \<Rightarrow> error + sample list \<times> error option" where
  "FromData e d = (if e = EncXOR then Inr d else Inl (UnknownChunkEncoding e))"

fun getFirstIterator :: "Chunk option list \<Rightarrow> chunk_it" where
  "getFirstIterator [] = errChunkIterator (Some NoValidChunkFound)"
| "getFirstIterator (None # cs) = getFirstIterator cs"
| "getFirstIterator (Some c # cs) =
     (case FromData (chunkEncoding (Type c)) (Data c) of
        Inl e \<Rightarrow> errChunkIterator (Some e)
      | Inr chk \<Rightarrow> xorIterator chk)"

subsection \<open>Removal of exact duplicates\<close>

text \<open>
  \<^verbatim>\<open>removeExactDuplicates\<close> compares the \<^verbatim>\<open>String()\<close> renderings of neighbouring
  chunks. The rendering is generated code outside this file, so it is the parameter
  \<open>str\<close>. The loop appends to \<open>ret\<close>, which starts as the first chunk alone.
\<close>

fun removeExactDuplicates_loop :: "('c \<Rightarrow> string) \<Rightarrow> 'c list \<Rightarrow> 'c list \<Rightarrow> 'c list" where
  "removeExactDuplicates_loop str ret [] = ret"
| "removeExactDuplicates_loop str ret (c # cs) =
     (if str (last ret) = str c then removeExactDuplicates_loop str ret cs
      else removeExactDuplicates_loop str (ret @ [c]) cs)"

definition removeExactDuplicates :: "('c \<Rightarrow> string) \<Rightarrow> 'c list \<Rightarrow> 'c list" where
  "removeExactDuplicates str chks =
     (if length chks \<le> 1 then chks
      else removeExactDuplicates_loop str [hd chks] (tl chks))"

subsection \<open>The series iterator interface\<close>

text \<open>
  \<^verbatim>\<open>storage.SeriesIterator\<close> is an interface of four methods. An implementation
  over the state type \<open>'s\<close> is a record of the four functions; a wrapper takes the
  record of the cursor it wraps.
\<close>

record 's SeriesIterator =
  Seek :: "int \<Rightarrow> 's \<Rightarrow> bool \<times> 's"
  Next :: "'s \<Rightarrow> bool \<times> 's"
  At :: "'s \<Rightarrow> sample"
  Err :: "'s \<Rightarrow> error option"

definition errSeriesIterator :: "(error option) SeriesIterator" where
  "errSeriesIterator =
     \<lparr>Seek = (\<lambda>t e. (False, e)), Next = (\<lambda>e. (False, e)),
      At = (\<lambda>e. (0, 0)), Err = (\<lambda>e. e)\<rparr>"

subsection \<open>The chunk series iterator\<close>

record chunkSeriesIterator =
  chunks :: "chunk_it list"
  i :: nat

definition chunkSeriesIterator_At :: "chunkSeriesIterator \<Rightarrow> sample" where
  "chunkSeriesIterator_At it = chunk_At (chunks it ! i it)"

definition chunkSeriesIterator_Err :: "chunkSeriesIterator \<Rightarrow> error option" where
  "chunkSeriesIterator_Err it = chunk_Err (chunks it ! i it)"

text \<open>
  The measure of the two loops: the samples still to come in the chunks from the
  current one on, and one for each of these chunks.
\<close>

definition remaining :: "chunkSeriesIterator \<Rightarrow> nat" where
  "remaining it = sum_list (map (\<lambda>c. Suc (length (rest c))) (drop (i it) (chunks it)))"

text \<open>
  Both methods start by reading \<^verbatim>\<open>it.chunks[it.i]\<close>, where Go panics when the index is
  out of range. For such a state the model fixes no result. The iterators that
  \<^verbatim>\<open>newChunkSeriesIterator\<close> builds never get there: their index starts in range and
  the two methods keep it in range (\<open>chunkSeriesIterator_in_range\<close> below).
\<close>

function chunkSeriesIterator_Seek :: "int \<Rightarrow> chunkSeriesIterator \<Rightarrow> bool \<times> chunkSeriesIterator"
  and chunkSeriesIterator_Next :: "chunkSeriesIterator \<Rightarrow> bool \<times> chunkSeriesIterator"
where
  "chunkSeriesIterator_Seek t it =
     (if \<not> i it < length (chunks it) then undefined
      else let ct = fst (chunkSeriesIterator_At it) in
        if ct \<ge> t then (True, it)
        else (case chunkSeriesIterator_Next it of
                (False, it') \<Rightarrow> (False, it')
              | (True, it') \<Rightarrow> chunkSeriesIterator_Seek t it'))"
| "chunkSeriesIterator_Next it =
     (if \<not> i it < length (chunks it) then undefined
      else let lastT = fst (chunkSeriesIterator_At it);
               (ok, c) = chunk_Next (chunks it ! i it);
               it1 = it\<lparr>chunks := (chunks it)[i it := c]\<rparr>
        in if ok then (True, it1)
           else if chunkSeriesIterator_Err it1 \<noteq> None then (False, it1)
           else if int (i it1) \<ge> int (length (chunks it1)) - 1 then (False, it1)
           else chunkSeriesIterator_Seek (add64 lastT 1) (it1\<lparr>i := i it1 + 1\<rparr>))"
  by pat_completeness auto

subsection \<open>Termination of the chunk series iterator\<close>

text \<open>
  \<^verbatim>\<open>Seek\<close> and \<^verbatim>\<open>Next\<close> call each other. A successful \<^verbatim>\<open>Next\<close> makes
  \<open>remaining\<close> smaller, and \<^verbatim>\<open>Seek\<close> never makes it larger.
\<close>

lemma chunk_Next_rest_le: "chunk_Next c = (ok, c') \<Longrightarrow> length (rest c') \<le> length (rest c)"
  by (auto simp: chunk_Next_def split: if_splits list.splits)

lemma chunk_Next_rest_less: "chunk_Next c = (True, c') \<Longrightarrow> length (rest c') < length (rest c)"
  by (auto simp: chunk_Next_def split: if_splits list.splits)

lemma remaining_split:
  "i it < length (chunks it) \<Longrightarrow>
   remaining it = Suc (length (rest (chunks it ! i it))) + remaining (it\<lparr>i := Suc (i it)\<rparr>)"
  by (simp add: remaining_def flip: Cons_nth_drop_Suc)

lemma remaining_update [simp]:
  "remaining (it\<lparr>chunks := (chunks it)[i it := c], i := Suc (i it)\<rparr>) = remaining (it\<lparr>i := Suc (i it)\<rparr>)"
  by (simp add: remaining_def)

lemma remaining_step_le:
  assumes "i it < length (chunks it)" "chunk_Next (chunks it ! i it) = (ok, c)"
  shows "remaining (it\<lparr>chunks := (chunks it)[i it := c]\<rparr>) \<le> remaining it"
    and "ok \<Longrightarrow> remaining (it\<lparr>chunks := (chunks it)[i it := c]\<rparr>) < remaining it"
    and "remaining (it\<lparr>chunks := (chunks it)[i it := c], i := Suc (i it)\<rparr>) < remaining it"
  using assms chunk_Next_rest_le[OF assms(2)] chunk_Next_rest_less[of "chunks it ! i it" c]
  by (simp_all add: remaining_split[of it] remaining_split[of "it\<lparr>chunks := (chunks it)[i it := c]\<rparr>"])

lemma remaining_dom:
  "chunkSeriesIterator_Seek_chunkSeriesIterator_Next_dom (Inl (t, it)) \<Longrightarrow>
     i it < length (chunks it) \<Longrightarrow>
     remaining (snd (chunkSeriesIterator_Seek t it)) \<le> remaining it \<and>
     i (snd (chunkSeriesIterator_Seek t it)) < length (chunks (snd (chunkSeriesIterator_Seek t it)))"
  "chunkSeriesIterator_Seek_chunkSeriesIterator_Next_dom (Inr it) \<Longrightarrow>
     i it < length (chunks it) \<Longrightarrow>
     remaining (snd (chunkSeriesIterator_Next it)) \<le> remaining it \<and>
     (fst (chunkSeriesIterator_Next it) \<longrightarrow> remaining (snd (chunkSeriesIterator_Next it)) < remaining it) \<and>
     i (snd (chunkSeriesIterator_Next it)) < length (chunks (snd (chunkSeriesIterator_Next it)))"
proof (induction rule: chunkSeriesIterator_Seek_chunkSeriesIterator_Next.pinduct)
  case (1 t it)
  note wf = \<open>i it < length (chunks it)\<close>
  show ?case
  proof (cases "t \<le> fst (chunkSeriesIterator_At it)")
    case True
    with wf show ?thesis by (simp add: chunkSeriesIterator_Seek.psimps[OF "1.hyps"])
  next
    case False
    obtain ok it' where nx: "chunkSeriesIterator_Next it = (ok, it')" by (cases "chunkSeriesIterator_Next it")
    from "1.IH"(1)[OF _ refl _ wf] wf False nx
    have le: "remaining it' \<le> remaining it" and wf': "i it' < length (chunks it')" by auto
    show ?thesis
    proof (cases ok)
      case True
      from "1.IH"(2)[OF _ refl _ _ _ wf', of True] wf False nx True
      have "remaining (snd (chunkSeriesIterator_Seek t it')) \<le> remaining it'
          \<and> i (snd (chunkSeriesIterator_Seek t it')) < length (chunks (snd (chunkSeriesIterator_Seek t it')))"
        by auto
      with le wf False nx True show ?thesis
        by (simp add: chunkSeriesIterator_Seek.psimps[OF "1.hyps"])
    next
      case False
      with le wf' wf \<open>\<not> t \<le> fst (chunkSeriesIterator_At it)\<close> nx show ?thesis
        by (simp add: chunkSeriesIterator_Seek.psimps[OF "1.hyps"])
    qed
  qed
next
  case (2 it)
  note wf = \<open>i it < length (chunks it)\<close>
  obtain ok c where cn: "chunk_Next (chunks it ! i it) = (ok, c)" by (cases "chunk_Next (chunks it ! i it)")
  let ?it1 = "it\<lparr>chunks := (chunks it)[i it := c]\<rparr>"
  note st = remaining_step_le[OF wf cn]
  show ?case
  proof (cases "ok \<or> chunkSeriesIterator_Err ?it1 \<noteq> None \<or> int (i ?it1) \<ge> int (length (chunks ?it1)) - 1")
    case True
    with wf cn st(1,2) show ?thesis
      by (auto simp add: chunkSeriesIterator_Next.psimps[OF "2.hyps"] Let_def)
  next
    case False
    let ?it2 = "?it1\<lparr>i := i ?it1 + 1\<rparr>"
    from False wf have wf2: "i ?it2 < length (chunks ?it2)" by simp
    from "2.IH"[OF _ refl cn[symmetric] refl refl _ _ _ wf2] wf False
    have "remaining (snd (chunkSeriesIterator_Seek (add64 (fst (chunkSeriesIterator_At it)) 1) ?it2)) \<le> remaining ?it2
       \<and> i (snd (chunkSeriesIterator_Seek (add64 (fst (chunkSeriesIterator_At it)) 1) ?it2))
           < length (chunks (snd (chunkSeriesIterator_Seek (add64 (fst (chunkSeriesIterator_At it)) 1) ?it2)))"
      by auto
    with st(3) False wf cn show ?thesis
      by (auto simp add: chunkSeriesIterator_Next.psimps[OF "2.hyps"] Let_def)
  qed
qed

lemma remaining_Suc_less:
  "i it < length (chunks it) \<Longrightarrow> remaining (it\<lparr>i := Suc (i it)\<rparr>) < remaining it"
  by (simp add: remaining_split[of it])

lemma Next_dom_less:
  assumes "chunkSeriesIterator_Seek_chunkSeriesIterator_Next_dom (Inr it)"
    and "i it < length (chunks it)" and "(True, it') = chunkSeriesIterator_Next it"
  shows "remaining it' < remaining it"
  using remaining_dom(2)[OF assms(1,2)] assms(3)[symmetric] by simp

termination chunkSeriesIterator_Seek
proof (relation "measures [\<lambda>x. case x of Inl (t, it) \<Rightarrow> remaining it | Inr it \<Rightarrow> remaining it,
                           \<lambda>x. case x of Inl _ \<Rightarrow> 1 | Inr _ \<Rightarrow> 0]", goal_cases)
  case 1
  show ?case by simp
next
  case 2
  show ?case by simp
next
  case 3
  then show ?case by (simp add: Next_dom_less)
next
  case 4
  then show ?case by (simp add: remaining_Suc_less)
qed

text \<open>
  The equations of the two loops call themselves; they are used where they are named.
\<close>

declare chunkSeriesIterator_Seek.simps [simp del]

declare chunkSeriesIterator_Next.simps [simp del]

text \<open>
  \<^verbatim>\<open>newChunkSeriesIterator\<close> returns a \<^verbatim>\<open>storage.SeriesIterator\<close>: the value
  \<^verbatim>\<open>errSeriesIterator{}\<close>, whose \<^verbatim>\<open>err\<close> field is nil, or a chunk series iterator
  at index 0. The third dynamic type that \<^verbatim>\<open>chunkSeries.Iterator\<close> wraps is the
  counter iterator of the package \<^verbatim>\<open>downsample\<close>, with a state of type \<open>'c\<close>.
\<close>

datatype 'c seriesIt =
    ErrSeriesIt "error option"
  | ChunkSeriesIt chunkSeriesIterator
  | CounterSeriesIt 'c

definition newChunkSeriesIterator :: "chunk_it list \<Rightarrow> 'c seriesIt" where
  "newChunkSeriesIterator cs =
     (if length cs = 0 then ErrSeriesIt None
      else ChunkSeriesIt \<lparr>chunks = cs, i = 0\<rparr>)"

definition chunkSeriesIterator_ops :: "chunkSeriesIterator SeriesIterator" where
  "chunkSeriesIterator_ops =
     \<lparr>Seek = chunkSeriesIterator_Seek, Next = chunkSeriesIterator_Next,
      At = chunkSeriesIterator_At, Err = chunkSeriesIterator_Err\<rparr>"

text \<open>The methods of a \<open>seriesIt\<close>, by its dynamic type; \<open>C\<close> are the counter iterator's.\<close>

definition seriesIt_ops :: "'c SeriesIterator \<Rightarrow> ('c seriesIt) SeriesIterator" where
  "seriesIt_ops C =
     \<lparr>Seek = (\<lambda>t s. case s of
         ErrSeriesIt e \<Rightarrow> map_prod id ErrSeriesIt (Seek errSeriesIterator t e)
       | ChunkSeriesIt c \<Rightarrow> map_prod id ChunkSeriesIt (chunkSeriesIterator_Seek t c)
       | CounterSeriesIt c \<Rightarrow> map_prod id CounterSeriesIt (Seek C t c)),
      Next = (\<lambda>s. case s of
         ErrSeriesIt e \<Rightarrow> map_prod id ErrSeriesIt (Next errSeriesIterator e)
       | ChunkSeriesIt c \<Rightarrow> map_prod id ChunkSeriesIt (chunkSeriesIterator_Next c)
       | CounterSeriesIt c \<Rightarrow> map_prod id CounterSeriesIt (Next C c)),
      At = (\<lambda>s. case s of
         ErrSeriesIt e \<Rightarrow> At errSeriesIterator e
       | ChunkSeriesIt c \<Rightarrow> chunkSeriesIterator_At c
       | CounterSeriesIt c \<Rightarrow> At C c),
      Err = (\<lambda>s. case s of
         ErrSeriesIt e \<Rightarrow> Err errSeriesIterator e
       | ChunkSeriesIt c \<Rightarrow> chunkSeriesIterator_Err c
       | CounterSeriesIt c \<Rightarrow> Err C c)\<rparr>"

text \<open>The samples of the first \<open>n\<close> successful calls of \<^verbatim>\<open>Next\<close>, up to the first that fails.\<close>

fun emitted :: "'s SeriesIterator \<Rightarrow> nat \<Rightarrow> 's \<Rightarrow> sample list" where
  "emitted I 0 s = []"
| "emitted I (Suc n) s =
     (case Next I s of
        (False, s') \<Rightarrow> []
      | (True, s') \<Rightarrow> At I s' # emitted I n s')"

subsection \<open>The bounded iterator\<close>

record 's boundedSeriesIterator =
  it :: 's
  mint :: int
  maxt :: int

definition newBoundedSeriesIterator :: "'s \<Rightarrow> int \<Rightarrow> int \<Rightarrow> 's boundedSeriesIterator" where
  "newBoundedSeriesIterator s lo hi = \<lparr>it = s, mint = lo, maxt = hi\<rparr>"

definition boundedSeriesIterator_Seek ::
  "'s SeriesIterator \<Rightarrow> int \<Rightarrow> 's boundedSeriesIterator \<Rightarrow> bool \<times> 's boundedSeriesIterator" where
  "boundedSeriesIterator_Seek I t bi =
     (if t > maxt bi then (False, bi)
      else let t1 = (if t < mint bi then mint bi else t);
               (ok, s) = Seek I t1 (it bi)
           in (ok, bi\<lparr>it := s\<rparr>))"

definition boundedSeriesIterator_At :: "'s SeriesIterator \<Rightarrow> 's boundedSeriesIterator \<Rightarrow> sample" where
  "boundedSeriesIterator_At I bi = At I (it bi)"

definition boundedSeriesIterator_Next ::
  "'s SeriesIterator \<Rightarrow> 's boundedSeriesIterator \<Rightarrow> bool \<times> 's boundedSeriesIterator" where
  "boundedSeriesIterator_Next I bi =
     (let (ok, s) = Next I (it bi); bi1 = bi\<lparr>it := s\<rparr>
      in if \<not> ok then (False, bi1)
         else let t = fst (At I (it bi1))
              in if t < mint bi1
                 then (let (ok2, bi2) = boundedSeriesIterator_Seek I (mint bi1) bi1
                       in if \<not> ok2 then (False, bi2)
                          else (fst (At I (it bi2)) \<le> maxt bi2, bi2))
                 else (t \<le> maxt bi1, bi1))"

definition boundedSeriesIterator_Err :: "'s SeriesIterator \<Rightarrow> 's boundedSeriesIterator \<Rightarrow> error option" where
  "boundedSeriesIterator_Err I bi = Err I (it bi)"

definition boundedSeriesIterator_ops :: "'s SeriesIterator \<Rightarrow> ('s boundedSeriesIterator) SeriesIterator" where
  "boundedSeriesIterator_ops I =
     \<lparr>Seek = boundedSeriesIterator_Seek I, Next = boundedSeriesIterator_Next I,
      At = boundedSeriesIterator_At I, Err = boundedSeriesIterator_Err I\<rparr>"

subsection \<open>The series of a store and its iterator\<close>

record Label =
  Name :: string
  Value :: string

text \<open>
  The package \<^verbatim>\<open>downsample\<close> is not part of this file. What
  \<^verbatim>\<open>chunkSeries.Iterator\<close> takes from it are parameters: the constructor and the
  methods of the counter iterator, and the constructor of the average chunk cursor.
\<close>

record 'c downsample =
  NewCounterSeriesIterator :: "chunk_it list \<Rightarrow> 'c"
  CounterSeriesIterator_ops :: "'c SeriesIterator"
  NewAverageChunkIterator :: "chunk_it \<Rightarrow> chunk_it \<Rightarrow> chunk_it"

record chunkSeries =
  cs_lset :: "Label list"
  cs_chunks :: "AggrChunk list"
  cs_mint :: int
  cs_maxt :: int
  cs_aggrs :: "Aggr list"

definition newChunkSeries ::
  "Label list \<Rightarrow> AggrChunk list \<Rightarrow> int \<Rightarrow> int \<Rightarrow> Aggr list \<Rightarrow> chunkSeries" where
  "newChunkSeries ls cks lo hi ags =
     \<lparr>cs_lset = ls, cs_chunks = cks, cs_mint = lo, cs_maxt = hi, cs_aggrs = ags\<rparr>"


text \<open>
  \<^verbatim>\<open>chunkSeries.Iterator\<close> returns an \<^verbatim>\<open>errSeriesIterator\<close> with its error, or a
  bounded iterator around the iterator \<^verbatim>\<open>sit\<close>.
\<close>

datatype 'c iterator =
    ErrIterator "error option"
  | BoundedIterator "('c seriesIt) boundedSeriesIterator"

definition chunkSeries_Iterator :: "'c downsample \<Rightarrow> chunkSeries \<Rightarrow> 'c iterator" where
  "chunkSeries_Iterator D s =
     (if length (cs_aggrs s) = 1 then
        (case cs_aggrs s ! 0 of
           Aggr_COUNT \<Rightarrow>
             BoundedIterator (newBoundedSeriesIterator
               (newChunkSeriesIterator (map (\<lambda>c. getFirstIterator [Count c, Raw c]) (cs_chunks s)))
               (cs_mint s) (cs_maxt s))
         | Aggr_SUM \<Rightarrow>
             BoundedIterator (newBoundedSeriesIterator
               (newChunkSeriesIterator (map (\<lambda>c. getFirstIterator [Sum c, Raw c]) (cs_chunks s)))
               (cs_mint s) (cs_maxt s))
         | Aggr_MIN \<Rightarrow>
             BoundedIterator (newBoundedSeriesIterator
               (newChunkSeriesIterator (map (\<lambda>c. getFirstIterator [Min' c, Raw c]) (cs_chunks s)))
               (cs_mint s) (cs_maxt s))
         | Aggr_MAX \<Rightarrow>
             BoundedIterator (newBoundedSeriesIterator
               (newChunkSeriesIterator (map (\<lambda>c. getFirstIterator [Max' c, Raw c]) (cs_chunks s)))
               (cs_mint s) (cs_maxt s))
         | Aggr_COUNTER \<Rightarrow>
             BoundedIterator (newBoundedSeriesIterator
               (CounterSeriesIt (NewCounterSeriesIterator D
                  (map (\<lambda>c. getFirstIterator [Counter c, Raw c]) (cs_chunks s))))
               (cs_mint s) (cs_maxt s))
         | Aggr_RAW \<Rightarrow> ErrIterator (Some (UnexpectedAggregateType (cs_aggrs s))))
      else if length (cs_aggrs s) \<noteq> 2 then
        ErrIterator (Some (UnexpectedAggregateType (cs_aggrs s)))
      else if (cs_aggrs s ! 0 = Aggr_SUM \<and> cs_aggrs s ! 1 = Aggr_COUNT)
            \<or> (cs_aggrs s ! 0 = Aggr_COUNT \<and> cs_aggrs s ! 1 = Aggr_SUM) then
        BoundedIterator (newBoundedSeriesIterator
          (newChunkSeriesIterator
             (map (\<lambda>c. if Raw c \<noteq> None then getFirstIterator [Raw c]
                        else NewAverageChunkIterator D
                               (getFirstIterator [Count c]) (getFirstIterator [Sum c]))
                  (cs_chunks s)))
          (cs_mint s) (cs_maxt s))
      else ErrIterator (Some (UnexpectedAggregateType (cs_aggrs s))))"

text \<open>The methods of the iterator that \<^verbatim>\<open>chunkSeries.Iterator\<close> returns.\<close>

definition iterator_Err :: "'c downsample \<Rightarrow> 'c iterator \<Rightarrow> error option" where
  "iterator_Err D x =
     (case x of
        ErrIterator e \<Rightarrow> Err errSeriesIterator e
      | BoundedIterator bi \<Rightarrow>
          boundedSeriesIterator_Err (seriesIt_ops (CounterSeriesIterator_ops D)) bi)"

definition iterator_Next :: "'c downsample \<Rightarrow> 'c iterator \<Rightarrow> bool \<times> 'c iterator" where
  "iterator_Next D x =
     (case x of
        ErrIterator e \<Rightarrow> map_prod id ErrIterator (Next errSeriesIterator e)
      | BoundedIterator bi \<Rightarrow>
          map_prod id BoundedIterator
            (boundedSeriesIterator_Next (seriesIt_ops (CounterSeriesIterator_ops D)) bi))"

definition iterator_Seek :: "'c downsample \<Rightarrow> int \<Rightarrow> 'c iterator \<Rightarrow> bool \<times> 'c iterator" where
  "iterator_Seek D t x =
     (case x of
        ErrIterator e \<Rightarrow> map_prod id ErrIterator (Seek errSeriesIterator t e)
      | BoundedIterator bi \<Rightarrow>
          map_prod id BoundedIterator
            (boundedSeriesIterator_Seek (seriesIt_ops (CounterSeriesIterator_ops D)) t bi))"

text \<open>The \<^verbatim>\<open>At\<close> of the iterator that \<^verbatim>\<open>chunkSeries.Iterator\<close> returns.\<close>

definition iterator_At :: "'c downsample \<Rightarrow> 'c iterator \<Rightarrow> sample" where
  "iterator_At D x =
     (case x of
        ErrIterator e \<Rightarrow> At errSeriesIterator e
      | BoundedIterator bi \<Rightarrow>
          boundedSeriesIterator_At (seriesIt_ops (CounterSeriesIterator_ops D)) bi)"

subsection \<open>The series set of a store\<close>

record Series =
  Labels :: "Label list"
  Chunks :: "AggrChunk list"






text \<open>
  \<^verbatim>\<open>storepb.CompareLabels\<close> orders two label lists; this file only asks whether its
  result is 0, which it is exactly for equal lists.
\<close>

definition CompareLabels :: "Label list \<Rightarrow> Label list \<Rightarrow> int" where
  "CompareLabels x y = (if x = y then 0 else 1)"

text \<open>
  \<^verbatim>\<open>storepb.SeriesSet\<close> is an interface of three methods; an implementation over the
  state type \<open>'st\<close> is a record of the three functions. \<^verbatim>\<open>storeSeriesSet\<close> is the
  implementation of this file.
\<close>

record 'st SeriesSet =
  SeriesSet_Next :: "'st \<Rightarrow> bool \<times> 'st"
  SeriesSet_At :: "'st \<Rightarrow> Label list \<times> AggrChunk list"
  SeriesSet_Err :: "'st \<Rightarrow> error option"


record 'st promSeriesSet =
  set' :: 'st
  done' :: bool
  ps_mint :: int
  ps_maxt :: int
  ps_aggrs :: "Aggr list"
  initiated :: bool
  currLset :: "Label list"
  currChunks :: "AggrChunk list"


text \<open>
  \<^verbatim>\<open>sort.Slice\<close> is not a stable sort: it orders the chunks by \<^verbatim>\<open>MinTime\<close> and leaves
  open in which order chunks of the same \<^verbatim>\<open>MinTime\<close> come out. The sort is the parameter
  \<open>sort_Slice\<close> of \<^verbatim>\<open>Next\<close>, and \<open>sorts_by_MinTime\<close> is what the library promises of
  it: the result has the same chunks, each as often as before, in the order of their
  \<^verbatim>\<open>MinTime\<close>.
\<close>

definition sorts_by_MinTime :: "(AggrChunk list \<Rightarrow> AggrChunk list) \<Rightarrow> bool" where
  "sorts_by_MinTime sort_Slice =
     (\<forall>xs. (\<forall>c. count_list (sort_Slice xs) c = count_list xs c)
           \<and> sorted (map MinTime (sort_Slice xs)))"



definition promSeriesSet_Err :: "'st SeriesSet \<Rightarrow> 'st promSeriesSet \<Rightarrow> error option" where
  "promSeriesSet_Err S s = SeriesSet_Err S (set' s)"



subsection \<open>The label set of a replica group\<close>

text \<open>
  \<^verbatim>\<open>peekLset\<close> reads the labels of the peeked series and the configured replica label
  names, a Go map used as a set. An index below zero makes Go panic, which is the result
  \<open>Inl\<close>.
\<close>

datatype panic = IndexOutOfRange

function peekLset_loop :: "string set \<Rightarrow> Label list \<Rightarrow> nat \<Rightarrow> nat \<Rightarrow> panic + nat" where
  "peekLset_loop replicaLabels lset index totalToRemove =
     (if index < card replicaLabels then
        (if int (length lset) - int index - 1 < 0 then Inl IndexOutOfRange
         else peekLset_loop replicaLabels lset (index + 1)
                (if Name (lset ! nat (int (length lset) - int index - 1)) \<in> replicaLabels
                 then totalToRemove + 1 else totalToRemove))
      else Inr totalToRemove)"
  by pat_completeness auto
termination
  by (relation "measure (\<lambda>(replicaLabels, lset, index, totalToRemove). card replicaLabels - index)") auto

declare peekLset_loop.simps [simp del]

definition peekLset :: "string set \<Rightarrow> Label list \<Rightarrow> panic + Label list" where
  "peekLset replicaLabels lset =
     (if card replicaLabels = 0 then Inr lset
      else case peekLset_loop replicaLabels lset 0 0 of
             Inl p \<Rightarrow> Inl p
           | Inr totalToRemove \<Rightarrow>
               (if int (length lset) - int totalToRemove < 0 then Inl IndexOutOfRange
                else Inr (take (length lset - totalToRemove) lset)))"

subsection \<open>The replica deduplication iterator\<close>

record ('x, 'y) dedupSeriesIterator =
  a :: 'x
  b :: 'y
  aok :: bool
  bok :: bool
  lastT :: int
  penA :: int
  penB :: int
  useA :: bool

definition newDedupSeriesIterator :: "'x \<Rightarrow> 'y \<Rightarrow> ('x, 'y) dedupSeriesIterator" where
  "newDedupSeriesIterator x y =
     \<lparr>a = x, b = y, aok = True, bok = True, lastT = MinInt64, penA = 0, penB = 0, useA = False\<rparr>"

definition initialPenality :: int where
  "initialPenality = 5000"

definition dedupSeriesIterator_Next ::
  "'x SeriesIterator \<Rightarrow> 'y SeriesIterator \<Rightarrow> ('x, 'y) dedupSeriesIterator
     \<Rightarrow> bool \<times> ('x, 'y) dedupSeriesIterator" where
  "dedupSeriesIterator_Next IA IB d =
     (let d1 = (if aok d
                then (let (ok, s) = Seek IA (add64 (add64 (lastT d) 1) (penA d)) (a d)
                      in d\<lparr>a := s, aok := ok\<rparr>)
                else d);
          d2 = (if bok d1
                then (let (ok, s) = Seek IB (add64 (add64 (lastT d1) 1) (penB d1)) (b d1)
                      in d1\<lparr>b := s, bok := ok\<rparr>)
                else d1)
      in if \<not> aok d2 then
           (let d3 = d2\<lparr>useA := False\<rparr>
            in (bok d3, if bok d3 then d3\<lparr>lastT := fst (At IB (b d3)), penB := 0\<rparr> else d3))
         else if \<not> bok d2 then
           (True, d2\<lparr>useA := True, lastT := fst (At IA (a d2)), penA := 0\<rparr>)
         else
           (let ta = fst (At IA (a d2)); tb = fst (At IB (b d2));
                d3 = d2\<lparr>useA := (ta \<le> tb)\<rparr>
            in if useA d3 then
                 (True, d3\<lparr>penB := (if lastT d3 \<noteq> MinInt64 then mul64 2 (sub64 ta (lastT d3))
                                     else initialPenality),
                            penA := 0, lastT := ta\<rparr>)
               else
                 (True, d3\<lparr>penA := (if lastT d3 \<noteq> MinInt64 then mul64 2 (sub64 tb (lastT d3))
                                     else initialPenality),
                            penB := 0, lastT := tb\<rparr>)))"

definition dedupSeriesIterator_At ::
  "'x SeriesIterator \<Rightarrow> 'y SeriesIterator \<Rightarrow> ('x, 'y) dedupSeriesIterator \<Rightarrow> sample" where
  "dedupSeriesIterator_At IA IB d = (if useA d then At IA (a d) else At IB (b d))"

definition dedupSeriesIterator_Err ::
  "'x SeriesIterator \<Rightarrow> 'y SeriesIterator \<Rightarrow> ('x, 'y) dedupSeriesIterator \<Rightarrow> error option" where
  "dedupSeriesIterator_Err IA IB d =
     (if Err IA (a d) \<noteq> None then Err IA (a d) else Err IB (b d))"

text \<open>
  The loop of \<^verbatim>\<open>Seek\<close> runs as long as \<^verbatim>\<open>Next\<close> succeeds on a sample that does not
  satisfy the test; over cursors that never end it may not return, which is the value
  \<open>None\<close>.
\<close>

partial_function (option) dedupSeriesIterator_Seek ::
  "'x SeriesIterator \<Rightarrow> 'y SeriesIterator \<Rightarrow> int \<Rightarrow> ('x, 'y) dedupSeriesIterator
     \<Rightarrow> (bool \<times> ('x, 'y) dedupSeriesIterator) option" where
  "dedupSeriesIterator_Seek IA IB t d =
     (let ts = fst (dedupSeriesIterator_At IA IB d)
      in if ts > 0 \<and> ts \<ge> t then Some (True, d)
         else (case dedupSeriesIterator_Next IA IB d of
                 (ok, d') \<Rightarrow> if \<not> ok then Some (False, d')
                             else dedupSeriesIterator_Seek IA IB t d'))"

text \<open>The samples of the first \<open>n\<close> successful calls of \<^verbatim>\<open>Next\<close> of the deduplication.\<close>

fun dedup_emitted ::
  "'x SeriesIterator \<Rightarrow> 'y SeriesIterator \<Rightarrow> nat \<Rightarrow> ('x, 'y) dedupSeriesIterator \<Rightarrow> sample list" where
  "dedup_emitted IA IB 0 d = []"
| "dedup_emitted IA IB (Suc n) d =
     (case dedupSeriesIterator_Next IA IB d of
        (False, d') \<Rightarrow> []
      | (True, d') \<Rightarrow> dedupSeriesIterator_At IA IB d' # dedup_emitted IA IB n d')"

subsection \<open>The aggregate selection, in the words of the specification\<close>

text \<open>
  The payload that matches a requested kind, the cursor built from one payload, and the
  cursor of a chunk for a single-kind request: the matching payload when the chunk has
  it, else the raw payload, else an error cursor.
\<close>

definition spec_matching_payload :: "Aggr \<Rightarrow> AggrChunk \<Rightarrow> Chunk option" where
  "spec_matching_payload k c =
     (case k of Aggr_RAW \<Rightarrow> Raw c | Aggr_COUNT \<Rightarrow> Count c | Aggr_SUM \<Rightarrow> Sum c
      | Aggr_MIN \<Rightarrow> Min' c | Aggr_MAX \<Rightarrow> Max' c | Aggr_COUNTER \<Rightarrow> Counter c)"

definition spec_payload_cursor :: "Chunk \<Rightarrow> chunk_it" where
  "spec_payload_cursor p =
     (case FromData (chunkEncoding (Type p)) (Data p) of
        Inl e \<Rightarrow> errChunkIterator (Some e)
      | Inr chk \<Rightarrow> xorIterator chk)"

definition spec_chunk_cursor :: "Aggr \<Rightarrow> AggrChunk \<Rightarrow> chunk_it" where
  "spec_chunk_cursor k c =
     (case spec_matching_payload k c of
        Some p \<Rightarrow> spec_payload_cursor p
      | None \<Rightarrow> (case Raw c of
                   Some r \<Rightarrow> spec_payload_cursor r
                 | None \<Rightarrow> errChunkIterator (Some NoValidChunkFound)))"

subsection \<open>Concrete inputs\<close>

text \<open>A stand-in for the package \<^verbatim>\<open>downsample\<close>, with a counter iterator that has no sample.\<close>

definition unit_downsample :: "unit downsample" where
  "unit_downsample =
     \<lparr>NewCounterSeriesIterator = (\<lambda>its. ()),
      CounterSeriesIterator_ops =
        \<lparr>Seek = (\<lambda>t u. (False, u)), Next = (\<lambda>u. (False, u)), At = (\<lambda>u. (0, 0)), Err = (\<lambda>u. None)\<rparr>,
      NewAverageChunkIterator = (\<lambda>cnt sm. cnt)\<rparr>"

text \<open>Two replicas of one series, each a bounded iterator over one chunk.\<close>

definition wA :: "chunkSeriesIterator boundedSeriesIterator" where
  "wA = newBoundedSeriesIterator \<lparr>chunks = [xorIterator ([(10, 1), (20, 2)], None)], i = 0\<rparr> 1 100"

definition wB :: "chunkSeriesIterator boundedSeriesIterator" where
  "wB = newBoundedSeriesIterator \<lparr>chunks = [xorIterator ([(12, 3), (22, 4)], None)], i = 0\<rparr> 1 100"

definition wD ::
  "(chunkSeriesIterator boundedSeriesIterator, chunkSeriesIterator boundedSeriesIterator) dedupSeriesIterator" where
  "wD = \<lparr>a = wA, b = wB, aok = True, bok = True, lastT = 5, penA = 0, penB = 0, useA = False\<rparr>"

text \<open>The contract of the wrapped cursor's \<^verbatim>\<open>Seek\<close>: where it succeeds, it stands at or after its target.\<close>

definition Seek_reaches :: "'s SeriesIterator \<Rightarrow> bool" where
  "Seek_reaches I = (\<forall>t s. fst (Seek I t s) \<longrightarrow> t \<le> fst (At I (snd (Seek I t s))))"

text \<open>A bounded iterator with the window 1 to 50 over one chunk with a sample at 100.\<close>

definition bounded_50 :: "chunkSeriesIterator boundedSeriesIterator" where
  "bounded_50 = newBoundedSeriesIterator \<lparr>chunks = [xorIterator ([(100, 7)], None)], i = 0\<rparr> 1 50"

subsection \<open>The loop of the deduplication's Seek, step by step\<close>

text \<open>
  \<open>dedup_test\<close> is the test of the loop of \<^verbatim>\<open>Seek\<close>. \<open>dedup_after k\<close> is the state
  after \<open>k\<close> calls of \<^verbatim>\<open>Next\<close>, and \<open>dedup_skips t k\<close> says that the loop goes through
  its first \<open>k\<close> rounds: each of the first \<open>k\<close> states fails the test and the call of
  \<^verbatim>\<open>Next\<close> on it succeeds.
\<close>

definition dedup_test ::
  "'x SeriesIterator \<Rightarrow> 'y SeriesIterator \<Rightarrow> int \<Rightarrow> ('x, 'y) dedupSeriesIterator \<Rightarrow> bool" where
  "dedup_test IA IB t d = (0 < fst (dedupSeriesIterator_At IA IB d) \<and> t \<le> fst (dedupSeriesIterator_At IA IB d))"

fun dedup_after ::
  "'x SeriesIterator \<Rightarrow> 'y SeriesIterator \<Rightarrow> nat \<Rightarrow> ('x, 'y) dedupSeriesIterator \<Rightarrow> ('x, 'y) dedupSeriesIterator" where
  "dedup_after IA IB 0 d = d"
| "dedup_after IA IB (Suc k) d = dedup_after IA IB k (snd (dedupSeriesIterator_Next IA IB d))"

fun dedup_skips ::
  "'x SeriesIterator \<Rightarrow> 'y SeriesIterator \<Rightarrow> int \<Rightarrow> nat \<Rightarrow> ('x, 'y) dedupSeriesIterator \<Rightarrow> bool" where
  "dedup_skips IA IB t 0 d = True"
| "dedup_skips IA IB t (Suc k) d =
     (\<not> dedup_test IA IB t d \<and> fst (dedupSeriesIterator_Next IA IB d)
      \<and> dedup_skips IA IB t k (snd (dedupSeriesIterator_Next IA IB d)))"

text \<open>
  \<open>dedup_stops t d y k\<close>: the loop goes through \<open>k\<close> rounds from \<open>d\<close> and then
  returns \<open>y\<close>, either true on a state that passes the test or false after a call of
  \<^verbatim>\<open>Next\<close> that fails.
\<close>

definition dedup_stops ::
  "'x SeriesIterator \<Rightarrow> 'y SeriesIterator \<Rightarrow> int \<Rightarrow> ('x, 'y) dedupSeriesIterator
     \<Rightarrow> bool \<times> ('x, 'y) dedupSeriesIterator \<Rightarrow> nat \<Rightarrow> bool" where
  "dedup_stops IA IB t d y k =
     (dedup_skips IA IB t k d \<and>
      (if fst y then dedup_after IA IB k d = snd y \<and> dedup_test IA IB t (snd y)
       else \<not> dedup_test IA IB t (dedup_after IA IB k d)
            \<and> dedupSeriesIterator_Next IA IB (dedup_after IA IB k d) = (False, snd y)))"

text \<open>
  A replica over one chunk with samples at 0 and 10 and the window 0 to 100, merged with
  an exhausted replica; \<open>wD1\<close> and \<open>wD2\<close> are the states after one and two calls of
  \<^verbatim>\<open>Next\<close>. \<open>wD'\<close> merges the two replicas \<open>wA\<close> and \<open>wB\<close>.
\<close>

definition wA0 :: "chunkSeriesIterator boundedSeriesIterator" where
  "wA0 = newBoundedSeriesIterator \<lparr>chunks = [xorIterator ([(0, 5), (10, 1)], None)], i = 0\<rparr> 0 100"

definition wD0 :: "(chunkSeriesIterator boundedSeriesIterator, error option) dedupSeriesIterator" where
  "wD0 = newDedupSeriesIterator wA0 None"

definition wD1 :: "(chunkSeriesIterator boundedSeriesIterator, error option) dedupSeriesIterator" where
  "wD1 = \<lparr>a = wA0, b = None, aok = True, bok = False, lastT = 0, penA = 0, penB = 0, useA = True\<rparr>"

definition wD2 :: "(chunkSeriesIterator boundedSeriesIterator, error option) dedupSeriesIterator" where
  "wD2 = \<lparr>a = \<lparr>it = \<lparr>chunks = [\<lparr>cur = (10, 1), rest = [], err = None, pending = None\<rparr>], i = 0\<rparr>,
                 mint = 0, maxt = 100\<rparr>,
           b = None, aok = True, bok = False, lastT = 10, penA = 0, penB = 0, useA = True\<rparr>"

definition wD' ::
  "(chunkSeriesIterator boundedSeriesIterator, chunkSeriesIterator boundedSeriesIterator) dedupSeriesIterator" where
  "wD' = newDedupSeriesIterator wA wB"

subsection \<open>The two orders of a pairwise merge\<close>

text \<open>
  \<open>dedup_tie\<close> holds of a state in which both sides are live and stand at the same
  timestamp; after a call of \<^verbatim>\<open>Next\<close> this is the case where the call found a tie.
  \<open>dedup_tie_free n\<close> says that none of the first \<open>n\<close> calls of \<^verbatim>\<open>Next\<close> finds one.
  \<open>mirrored d e\<close> says that \<open>e\<close> is \<open>d\<close> with the two sides exchanged; \<open>useA\<close> is left
  out, since \<^verbatim>\<open>Next\<close> sets it before it reads it.
\<close>

definition dedup_tie ::
  "'x SeriesIterator \<Rightarrow> 'y SeriesIterator \<Rightarrow> ('x, 'y) dedupSeriesIterator \<Rightarrow> bool" where
  "dedup_tie IA IB d = (aok d \<and> bok d \<and> fst (At IA (a d)) = fst (At IB (b d)))"

fun dedup_tie_free ::
  "'x SeriesIterator \<Rightarrow> 'y SeriesIterator \<Rightarrow> nat \<Rightarrow> ('x, 'y) dedupSeriesIterator \<Rightarrow> bool" where
  "dedup_tie_free IA IB 0 d = True"
| "dedup_tie_free IA IB (Suc n) d =
     (\<not> dedup_tie IA IB (snd (dedupSeriesIterator_Next IA IB d))
      \<and> (if fst (dedupSeriesIterator_Next IA IB d)
         then dedup_tie_free IA IB n (snd (dedupSeriesIterator_Next IA IB d)) else True))"

definition mirrored :: "('x, 'y) dedupSeriesIterator \<Rightarrow> ('y, 'x) dedupSeriesIterator \<Rightarrow> bool" where
  "mirrored d e =
     (a e = b d \<and> b e = a d \<and> aok e = bok d \<and> bok e = aok d \<and> lastT e = lastT d
      \<and> penA e = penB d \<and> penB e = penA d)"

text \<open>Two replicas whose first samples have the same timestamp.\<close>

definition tA :: "chunkSeriesIterator boundedSeriesIterator" where
  "tA = newBoundedSeriesIterator \<lparr>chunks = [xorIterator ([(10, 1), (20, 2)], None)], i = 0\<rparr> 1 100"

definition tB :: "chunkSeriesIterator boundedSeriesIterator" where
  "tB = newBoundedSeriesIterator \<lparr>chunks = [xorIterator ([(10, 1), (25, 3)], None)], i = 0\<rparr> 1 100"

subsection \<open>The requests that the aggregate selector resolves, in the words of the specification\<close>


subsection \<open>The series of a result, group by group\<close>

text \<open>
  The series of a store that stand next to each other with the same label set form a
  group: the first of them and the series after it for which \<^verbatim>\<open>CompareLabels\<close> with
  the first returns 0. \<open>group_series\<close> is the series that one group becomes: the label
  set of its first member, and the chunks of all its members, sorted and without exact
  duplicates.
\<close>

function label_groups :: "Series list \<Rightarrow> Series list list" where
  "label_groups [] = []"
| "label_groups (x # xs) =
     (x # takeWhile (\<lambda>y. CompareLabels (Labels x) (Labels y) = 0) xs)
       # label_groups (dropWhile (\<lambda>y. CompareLabels (Labels x) (Labels y) = 0) xs)"
  by pat_completeness auto
termination
  by (relation "measure length") (auto simp add: length_dropWhile_le less_Suc_eq_le)

definition group_series ::
  "(AggrChunk list \<Rightarrow> AggrChunk list) \<Rightarrow> (AggrChunk \<Rightarrow> string) \<Rightarrow> int \<Rightarrow> int \<Rightarrow> Aggr list
     \<Rightarrow> Series list \<Rightarrow> chunkSeries" where
  "group_series sort_Slice str lo hi ags g =
     newChunkSeries (Labels (hd g))
       (removeExactDuplicates str (sort_Slice (concat (map Chunks g)))) lo hi ags"

subsection \<open>The cursor of a chunk, in the words of the specification\<close>


definition spec_only_cursor :: "Chunk option \<Rightarrow> chunk_it" where
  "spec_only_cursor p =
     (case p of Some x \<Rightarrow> spec_payload_cursor x
      | None \<Rightarrow> errChunkIterator (Some NoValidChunkFound))"

definition spec_average_cursor :: "'c downsample \<Rightarrow> AggrChunk \<Rightarrow> chunk_it" where
  "spec_average_cursor D c =
     (case Raw c of
        Some r \<Rightarrow> spec_payload_cursor r
      | None \<Rightarrow> NewAverageChunkIterator D (spec_only_cursor (Count c)) (spec_only_cursor (Sum c)))"

definition spec_cursor :: "'c downsample \<Rightarrow> Aggr list \<Rightarrow> AggrChunk \<Rightarrow> chunk_it" where
  "spec_cursor D ags c =
     (case ags of [k] \<Rightarrow> spec_chunk_cursor k c | _ \<Rightarrow> spec_average_cursor D c)"

text \<open>The requests for which \<^verbatim>\<open>chunkSeries.Iterator\<close> builds a chunk series iterator.\<close>

definition spec_chunkwise :: "Aggr list \<Rightarrow> bool" where
  "spec_chunkwise ags =
     (ags \<in> {[Aggr_COUNT], [Aggr_SUM], [Aggr_MIN], [Aggr_MAX],
              [Aggr_SUM, Aggr_COUNT], [Aggr_COUNT, Aggr_SUM]})"

subsection \<open>Series and stores for the series set\<close>

text \<open>
  Chunks with a sum payload only: one that decodes to a single sample at its start
  time, one with an encoding tag that is not XOR, and one whose XOR payload fails at the
  first read. \<open>wStr\<close> stands in for the generated \<^verbatim>\<open>String()\<close> and tells the chunks
  that start at 1 from those that start at 6.
\<close>

definition wGood :: "int \<Rightarrow> AggrChunk" where
  "wGood t = \<lparr>MinTime = t, MaxTime = t, Raw = None, Count = None,
      Sum = Some \<lparr>Type = Chunk_XOR, Data = ([(t, 2)], None)\<rparr>,
      Min' = None, Max' = None, Counter = None\<rparr>"

definition wBad :: "int \<Rightarrow> AggrChunk" where
  "wBad t = \<lparr>MinTime = t, MaxTime = t, Raw = None, Count = None,
      Sum = Some \<lparr>Type = Chunk_Other 7, Data = ([], None)\<rparr>,
      Min' = None, Max' = None, Counter = None\<rparr>"

definition wCut :: "int \<Rightarrow> AggrChunk" where
  "wCut t = \<lparr>MinTime = t, MaxTime = t, Raw = None, Count = None,
      Sum = Some \<lparr>Type = Chunk_XOR, Data = ([], Some (ReadError ''EOF''))\<rparr>,
      Min' = None, Max' = None, Counter = None\<rparr>"


definition wJob :: "string \<Rightarrow> Label list" where
  "wJob v = [\<lparr>Name = ''job'', Value = v\<rparr>]"





subsection \<open>Chunk cursors with timestamps that are not negative\<close>

text \<open>
  A fresh chunk cursor has not been advanced: its \<^verbatim>\<open>At\<close> returns the timestamp 0, and
  its samples have strictly increasing timestamps from 0 on and below the largest
  \<^verbatim>\<open>int64\<close>. A running chunk cursor stands on a sample, and the samples to come have
  larger timestamps. A chunk series iterator is fresh or running as its current chunk
  is, with all later chunks fresh.
\<close>

definition chunk_fresh :: "chunk_it \<Rightarrow> bool" where
  "chunk_fresh c =
     (fst (cur c) = 0 \<and> sorted_wrt (<) (map fst (rest c))
      \<and> list_all (\<lambda>x. 0 \<le> fst x \<and> fst x < MaxInt64) (rest c))"

definition chunk_running :: "chunk_it \<Rightarrow> bool" where
  "chunk_running c =
     (0 \<le> fst (cur c) \<and> fst (cur c) < MaxInt64 \<and> sorted_wrt (<) (map fst (cur c # rest c))
      \<and> list_all (\<lambda>x. fst x < MaxInt64) (rest c))"

definition later_fresh :: "chunkSeriesIterator \<Rightarrow> bool" where
  "later_fresh ci =
     (i ci < length (chunks ci) \<and> list_all chunk_fresh (drop (Suc (i ci)) (chunks ci)))"

definition state_running :: "chunkSeriesIterator \<Rightarrow> bool" where
  "state_running ci = (later_fresh ci \<and> chunk_running (chunks ci ! i ci))"

definition state_fresh :: "chunkSeriesIterator \<Rightarrow> bool" where
  "state_fresh ci = (later_fresh ci \<and> chunk_fresh (chunks ci ! i ci))"

section \<open>Removal of exact duplicates\<close>

lemma loop_distinct_adj:
  "ret \<noteq> [] \<Longrightarrow> distinct_adj (map str ret) \<Longrightarrow>
   distinct_adj (map str (removeExactDuplicates_loop str ret cs)) \<and>
   removeExactDuplicates_loop str ret cs \<noteq> []"
proof (induction cs arbitrary: ret)
  case Nil
  then show ?case by simp
next
  case (Cons c cs)
  show ?case
  proof (cases "str (last ret) = str c")
    case True
    with Cons show ?thesis by simp
  next
    case False
    with Cons.prems have "distinct_adj (map str (ret @ [c]))"
      by (simp add: distinct_adj_append_iff last_map hd_map)
    with Cons.IH[of "ret @ [c]"] False show ?thesis by simp
  qed
qed

lemma loop_id:
  "ret \<noteq> [] \<Longrightarrow> distinct_adj (map str (ret @ cs)) \<Longrightarrow>
   removeExactDuplicates_loop str ret cs = ret @ cs"
proof (induction cs arbitrary: ret)
  case Nil
  then show ?case by simp
next
  case (Cons c cs)
  from Cons.prems have "str (last ret) \<noteq> str c"
    by (simp add: distinct_adj_append_iff last_map)
  moreover from Cons.prems have "distinct_adj (map str ((ret @ [c]) @ cs))" by simp
  ultimately show ?case using Cons.IH[of "ret @ [c]"] by simp
qed

lemma removeExactDuplicates_distinct_adj:
  "distinct_adj (map str (removeExactDuplicates str chks))"
proof (cases chks)
  case Nil
  then show ?thesis by (simp add: removeExactDuplicates_def)
next
  case (Cons c cs)
  then show ?thesis
    using loop_distinct_adj[of "[c]" str cs]
    by (cases cs) (simp_all add: removeExactDuplicates_def)
qed

lemma removeExactDuplicates_fixed:
  "distinct_adj (map str chks) \<Longrightarrow> removeExactDuplicates str chks = chks"
proof (cases chks)
  case Nil
  then show ?thesis by (simp add: removeExactDuplicates_def)
next
  case (Cons c cs)
  assume "distinct_adj (map str chks)"
  with Cons show ?thesis
    using loop_id[of "[c]" str cs]
    by (simp add: removeExactDuplicates_def)
qed

text \<open>
  Claim C10. Exact-duplicate chunk removal is idempotent: applying
  \<^verbatim>\<open>removeExactDuplicates\<close> to its own output gives the same list as applying it
  once. This holds for every chunk list, sorted by \<^verbatim>\<open>MinTime\<close> or not, and for every
  rendering \<open>str\<close> of the chunks.
\<close>

theorem removeExactDuplicates_idempotent:
  "removeExactDuplicates str (removeExactDuplicates str chks) = removeExactDuplicates str chks"
  by (rule removeExactDuplicates_fixed) (rule removeExactDuplicates_distinct_adj)

section \<open>The chunk series iterator\<close>

text \<open>
  The two loops, unfolded once, for a state whose index is in range. A state built by
  \<^verbatim>\<open>newChunkSeriesIterator\<close> has its index in range, and \<^verbatim>\<open>Seek\<close> and \<^verbatim>\<open>Next\<close>
  keep it there, so the out-of-range reads of the Go code are never reached.
\<close>

lemma Seek_unf:
  "i ci < length (chunks ci) \<Longrightarrow>
   chunkSeriesIterator_Seek t ci =
     (if t \<le> fst (chunkSeriesIterator_At ci) then (True, ci)
      else if fst (chunkSeriesIterator_Next ci) then chunkSeriesIterator_Seek t (snd (chunkSeriesIterator_Next ci))
      else (False, snd (chunkSeriesIterator_Next ci)))"
  by (cases "chunkSeriesIterator_Next ci")
     (auto simp add: chunkSeriesIterator_Seek.simps[of t ci] Let_def)

lemma Next_unf:
  "i ci < length (chunks ci) \<Longrightarrow> chunk_Next (chunks ci ! i ci) = (ok, c) \<Longrightarrow>
   chunkSeriesIterator_Next ci =
     (if ok then (True, ci\<lparr>chunks := (chunks ci)[i ci := c]\<rparr>)
      else if chunk_Err c \<noteq> None then (False, ci\<lparr>chunks := (chunks ci)[i ci := c]\<rparr>)
      else if length (chunks ci) \<le> Suc (i ci) then (False, ci\<lparr>chunks := (chunks ci)[i ci := c]\<rparr>)
      else chunkSeriesIterator_Seek (add64 (fst (chunkSeriesIterator_At ci)) 1)
             (ci\<lparr>chunks := (chunks ci)[i ci := c], i := Suc (i ci)\<rparr>))"
  by (auto simp add: chunkSeriesIterator_Next.simps[of ci] Let_def chunkSeriesIterator_Err_def)

lemma chunkSeriesIterator_in_range:
  "i ci < length (chunks ci) \<Longrightarrow>
     i (snd (chunkSeriesIterator_Seek t ci)) < length (chunks (snd (chunkSeriesIterator_Seek t ci)))"
  "i cj < length (chunks cj) \<Longrightarrow>
     i (snd (chunkSeriesIterator_Next cj)) < length (chunks (snd (chunkSeriesIterator_Next cj)))"
proof (induction t ci and cj rule: chunkSeriesIterator_Seek_chunkSeriesIterator_Next.induct)
  case (1 t ci)
  note wf = "1.prems"
  then have p1: "\<not> \<not> i ci < length (chunks ci)" by simp
  show ?case
  proof (cases "t \<le> fst (chunkSeriesIterator_At ci)")
    case True
    with wf show ?thesis by (simp add: Seek_unf)
  next
    case False
    note r1 = "1.IH"(1)[OF p1 refl False wf]
    show ?thesis
    proof (cases "fst (chunkSeriesIterator_Next ci)")
      case False
      with \<open>\<not> t \<le> fst (chunkSeriesIterator_At ci)\<close> wf r1 show ?thesis by (simp add: Seek_unf)
    next
      case True
      then have e: "(True, snd (chunkSeriesIterator_Next ci)) = chunkSeriesIterator_Next ci"
        by (simp add: prod_eq_iff)
      from "1.IH"(2)[OF p1 refl False e refl r1] True \<open>\<not> t \<le> fst (chunkSeriesIterator_At ci)\<close> wf
      show ?thesis by (simp add: Seek_unf)
    qed
  qed
next
  case (2 cj)
  note wf = "2.prems"
  then have p1: "\<not> \<not> i cj < length (chunks cj)" by simp
  obtain ok c where cn: "chunk_Next (chunks cj ! i cj) = (ok, c)"
    by (cases "chunk_Next (chunks cj ! i cj)")
  let ?c1 = "cj\<lparr>chunks := (chunks cj)[i cj := c]\<rparr>"
  note u = Next_unf[OF wf cn]
  show ?case
  proof (cases "ok \<or> chunk_Err c \<noteq> None \<or> length (chunks cj) \<le> Suc (i cj)")
    case True
    with wf show ?thesis unfolding u by auto
  next
    case False
    let ?c2 = "cj\<lparr>chunks := (chunks cj)[i cj := c], i := Suc (i cj)\<rparr>"
    from cn False have cn1: "(False, c) = chunk_Next (chunks cj ! i cj)" by simp
    from wf False have ne1: "\<not> chunkSeriesIterator_Err ?c1 \<noteq> None"
      by (simp add: chunkSeriesIterator_Err_def)
    from False have ln1: "\<not> int (length (chunks ?c1)) - 1 \<le> int (i ?c1)" by simp
    have c2: "?c1\<lparr>i := i ?c1 + 1\<rparr> = ?c2" by simp
    from False have wf2: "i ?c2 < length (chunks ?c2)" by simp
    have nf: "\<not> False" by simp
    note ih = "2.IH"[OF p1 refl refl cn1 refl nf ne1 ln1, unfolded c2, OF wf2]
    from False ih show ?thesis unfolding u by simp
  qed
qed

lemma newChunkSeriesIterator_in_range:
  "newChunkSeriesIterator cs = ChunkSeriesIt ci \<Longrightarrow> i ci < length (chunks ci)"
  by (auto simp add: newChunkSeriesIterator_def split: if_splits)

text \<open>
  Claim C4. The claim says that a chunk series iterator built from an empty list of
  chunk cursors reports a non-nil error. The code returns \<^verbatim>\<open>errSeriesIterator{}\<close>,
  whose error is nil: the cursor ends at once (\<^verbatim>\<open>Next\<close> and \<^verbatim>\<open>Seek\<close> return false)
  and \<^verbatim>\<open>Err\<close> returns nil, as for an empty series.
\<close>

theorem newChunkSeriesIterator_empty_no_error:
  "newChunkSeriesIterator [] = (ErrSeriesIt None :: 'c seriesIt)
   \<and> Err (seriesIt_ops C) (newChunkSeriesIterator []) = None
   \<and> fst (Next (seriesIt_ops C) (newChunkSeriesIterator [])) = False
   \<and> fst (Seek (seriesIt_ops C) t (newChunkSeriesIterator [])) = False"
  by (simp add: newChunkSeriesIterator_def seriesIt_ops_def errSeriesIterator_def)

section \<open>The aggregate selector\<close>

lemma getFirstIterator_two:
  "getFirstIterator [x, y] =
     (case x of Some p \<Rightarrow> spec_payload_cursor p
      | None \<Rightarrow> (case y of Some r \<Rightarrow> spec_payload_cursor r
                  | None \<Rightarrow> errChunkIterator (Some NoValidChunkFound)))"
  by (simp add: spec_payload_cursor_def split: option.splits)

text \<open>
  Claim C7. For a request of one kind among count, sum, min, max and counter, the cursor
  of every chunk is \<open>spec_chunk_cursor\<close>: it is built from the matching payload when the
  chunk has it, from the raw payload when the matching one is absent, and it is an error
  cursor when the chunk has neither. The four first kinds hand the cursors to the chunk
  series iterator, the counter kind to the counter iterator of \<^verbatim>\<open>downsample\<close>.
\<close>

theorem chunkSeries_Iterator_single_kind:
  assumes "k \<in> {Aggr_COUNT, Aggr_SUM, Aggr_MIN, Aggr_MAX, Aggr_COUNTER}"
    and "cs_aggrs s = [k]"
  shows "chunkSeries_Iterator D s =
           BoundedIterator (newBoundedSeriesIterator
             (if k = Aggr_COUNTER
              then CounterSeriesIt (NewCounterSeriesIterator D (map (spec_chunk_cursor k) (cs_chunks s)))
              else newChunkSeriesIterator (map (spec_chunk_cursor k) (cs_chunks s)))
             (cs_mint s) (cs_maxt s))"
  using assms
  by (auto simp: chunkSeries_Iterator_def getFirstIterator_two spec_chunk_cursor_def[abs_def]
        spec_matching_payload_def)

theorem chunkSeries_Iterator_single_kind_witness:
  "chunkSeries_Iterator unit_downsample
     (newChunkSeries [] [\<lparr>MinTime = 1, MaxTime = 5, Raw = Some \<lparr>Type = Chunk_XOR, Data = ([(1, 2)], None)\<rparr>,
        Count = None, Sum = None, Min' = None, Max' = None, Counter = None\<rparr>] 0 10 [Aggr_SUM])
   = BoundedIterator \<lparr>it = ChunkSeriesIt \<lparr>chunks = [xorIterator ([(1, 2)], None)], i = 0\<rparr>, mint = 0, maxt = 10\<rparr>"
  using chunkSeries_Iterator_single_kind[of Aggr_SUM
     "newChunkSeries [] [\<lparr>MinTime = 1, MaxTime = 5, Raw = Some \<lparr>Type = Chunk_XOR, Data = ([(1, 2)], None)\<rparr>,
        Count = None, Sum = None, Min' = None, Max' = None, Counter = None\<rparr>] 0 10 [Aggr_SUM]" unit_downsample]
  by (simp add: newChunkSeries_def spec_chunk_cursor_def spec_matching_payload_def spec_payload_cursor_def
       FromData_def chunkEncoding_def newChunkSeriesIterator_def newBoundedSeriesIterator_def)

section \<open>The replica deduplication iterator\<close>

lemma wrap64_id: "MinInt64 \<le> x \<Longrightarrow> x \<le> MaxInt64 \<Longrightarrow> wrap64 x = x"
  by (simp add: wrap64_def MinInt64_def MaxInt64_def)

lemma penalty_no_overflow:
  assumes "MinInt64 \<le> 2 * (t - l)" "2 * (t - l) \<le> MaxInt64"
  shows "mul64 2 (sub64 t l) = 2 * (t - l)"
proof -
  from assms have "MinInt64 \<le> t - l" "t - l \<le> MaxInt64"
    by (simp_all add: MinInt64_def MaxInt64_def)
  then have "sub64 t l = t - l" by (simp add: sub64_def wrap64_id)
  with assms show ?thesis by (simp add: mul64_def wrap64_id)
qed

text \<open>
  Claim C1. One call of \<^verbatim>\<open>Next\<close> of the pairwise deduplication. Each side that is
  still live is sought to \<open>lastT + 1\<close> plus its penalty (\<open>ra\<close>, \<open>rb\<close>; a side that
  is not live is not touched). When both seeks succeed, the side with the smaller
  timestamp is selected, side A on a tie; the penalty of the other side becomes
  \<open>2 * (t - lastT)\<close> in the arithmetic of \<^verbatim>\<open>int64\<close>, or 5000 when \<open>lastT\<close> still has
  its initial value; the penalty of the selected side becomes 0, its sample is the one
  \<^verbatim>\<open>At\<close> returns, and \<open>lastT\<close> becomes its timestamp. When one seek succeeds, that side
  is selected and its penalty becomes 0. When none does, \<^verbatim>\<open>Next\<close> returns false.
\<close>

theorem dedupSeriesIterator_Next_step:
  "let ra = (if aok d then Seek IA (add64 (add64 (lastT d) 1) (penA d)) (a d) else (False, a d));
       rb = (if bok d then Seek IB (add64 (add64 (lastT d) 1) (penB d)) (b d) else (False, b d));
       ta = fst (At IA (snd ra)); tb = fst (At IB (snd rb));
       r = dedupSeriesIterator_Next IA IB d; d' = snd r
   in a d' = snd ra \<and> b d' = snd rb \<and> aok d' = fst ra \<and> bok d' = fst rb
      \<and> (fst ra \<and> fst rb \<and> ta \<le> tb \<longrightarrow>
            fst r \<and> useA d' \<and> penA d' = 0
            \<and> penB d' = (if lastT d = MinInt64 then 5000 else mul64 2 (sub64 ta (lastT d)))
            \<and> lastT d' = ta \<and> dedupSeriesIterator_At IA IB d' = At IA (snd ra))
      \<and> (fst ra \<and> fst rb \<and> \<not> ta \<le> tb \<longrightarrow>
            fst r \<and> \<not> useA d' \<and> penB d' = 0
            \<and> penA d' = (if lastT d = MinInt64 then 5000 else mul64 2 (sub64 tb (lastT d)))
            \<and> lastT d' = tb \<and> dedupSeriesIterator_At IA IB d' = At IB (snd rb))
      \<and> (fst ra \<and> \<not> fst rb \<longrightarrow>
            fst r \<and> useA d' \<and> penA d' = 0 \<and> lastT d' = ta
            \<and> dedupSeriesIterator_At IA IB d' = At IA (snd ra))
      \<and> (\<not> fst ra \<and> fst rb \<longrightarrow>
            fst r \<and> \<not> useA d' \<and> penB d' = 0 \<and> lastT d' = tb
            \<and> dedupSeriesIterator_At IA IB d' = At IB (snd rb))
      \<and> (\<not> fst ra \<and> \<not> fst rb \<longrightarrow> \<not> fst r)"
proof -
  obtain oa sa where ra: "Seek IA (add64 (add64 (lastT d) 1) (penA d)) (a d) = (oa, sa)"
    by (cases "Seek IA (add64 (add64 (lastT d) 1) (penA d)) (a d)")
  obtain ob sb where rb: "Seek IB (add64 (add64 (lastT d) 1) (penB d)) (b d) = (ob, sb)"
    by (cases "Seek IB (add64 (add64 (lastT d) 1) (penB d)) (b d)")
  show ?thesis
    by (cases "aok d"; cases "bok d"; cases oa; cases ob)
       (simp_all add: ra rb dedupSeriesIterator_Next_def dedupSeriesIterator_At_def Let_def
          initialPenality_def)
qed

lemmas eval_defs =
  chunkSeriesIterator_Seek.simps chunkSeriesIterator_Next.simps
  boundedSeriesIterator_ops_def chunkSeriesIterator_ops_def boundedSeriesIterator_Seek_def
  boundedSeriesIterator_Next_def boundedSeriesIterator_At_def boundedSeriesIterator_Err_def
  newBoundedSeriesIterator_def xorIterator_def errChunkIterator_def
  chunkSeriesIterator_At_def chunk_At_def chunk_Next_def
  chunkSeriesIterator_Err_def chunk_Err_def add64_def sub64_def mul64_def wrap64_def MinInt64_def

lemma wA_Seek:
  "Seek (boundedSeriesIterator_ops chunkSeriesIterator_ops) 6 wA =
     (True, \<lparr>it = \<lparr>chunks = [\<lparr>cur = (10, 1), rest = [(20, 2)], err = None, pending = None\<rparr>], i = 0\<rparr>,
             mint = 1, maxt = 100\<rparr>)"
  by (simp add: wA_def eval_defs)

lemma wB_Seek:
  "Seek (boundedSeriesIterator_ops chunkSeriesIterator_ops) 6 wB =
     (True, \<lparr>it = \<lparr>chunks = [\<lparr>cur = (12, 3), rest = [(22, 4)], err = None, pending = None\<rparr>], i = 0\<rparr>,
             mint = 1, maxt = 100\<rparr>)"
  by (simp add: wB_def eval_defs)

theorem dedupSeriesIterator_Next_step_witness:
  "fst (dedupSeriesIterator_Next (boundedSeriesIterator_ops chunkSeriesIterator_ops)
          (boundedSeriesIterator_ops chunkSeriesIterator_ops) wD)
   \<and> lastT (snd (dedupSeriesIterator_Next (boundedSeriesIterator_ops chunkSeriesIterator_ops)
          (boundedSeriesIterator_ops chunkSeriesIterator_ops) wD)) = 10
   \<and> penB (snd (dedupSeriesIterator_Next (boundedSeriesIterator_ops chunkSeriesIterator_ops)
          (boundedSeriesIterator_ops chunkSeriesIterator_ops) wD)) = 10
   \<and> penA (snd (dedupSeriesIterator_Next (boundedSeriesIterator_ops chunkSeriesIterator_ops)
          (boundedSeriesIterator_ops chunkSeriesIterator_ops) wD)) = 0"
proof -
  have l: "lastT wD = 5" "penA wD = 0" "penB wD = 0" "aok wD" "bok wD" "a wD = wA" "b wD = wB"
    by (simp_all add: wD_def)
  have t: "add64 (add64 5 1) 0 = 6" "mul64 2 (sub64 10 5) = 10" "(5::int) \<noteq> MinInt64"
    by (simp_all add: add64_def sub64_def mul64_def wrap64_def MinInt64_def)
  show ?thesis
    using dedupSeriesIterator_Next_step[of wD "boundedSeriesIterator_ops chunkSeriesIterator_ops"
          "boundedSeriesIterator_ops chunkSeriesIterator_ops"]
    by (simp add: l t wA_Seek wB_Seek Let_def)
       (simp add: eval_defs)
qed

section \<open>The bounded iterator\<close>

text \<open>
  What holds of the bounded iterator: \<^verbatim>\<open>Seek\<close> beyond \<open>maxt\<close> fails and leaves the
  wrapped cursor alone, \<^verbatim>\<open>Seek\<close> below \<open>mint\<close> seeks the wrapped cursor to \<open>mint\<close>,
  a successful \<^verbatim>\<open>Seek\<close> stands at or after \<open>mint\<close> and its target, and a successful
  \<^verbatim>\<open>Next\<close> stands inside the window.
\<close>

lemma boundedSeriesIterator_Seek_beyond_maxt:
  "t > maxt bi \<Longrightarrow> boundedSeriesIterator_Seek I t bi = (False, bi)"
  by (simp add: boundedSeriesIterator_Seek_def)

lemma boundedSeriesIterator_Seek_clamps:
  "t < mint bi \<Longrightarrow> t \<le> maxt bi \<Longrightarrow>
   boundedSeriesIterator_Seek I t bi = (fst (Seek I (mint bi) (it bi)), bi\<lparr>it := snd (Seek I (mint bi) (it bi))\<rparr>)"
  by (simp add: boundedSeriesIterator_Seek_def split: prod.splits)

lemma boundedSeriesIterator_Seek_lower:
  assumes "Seek_reaches I" "boundedSeriesIterator_Seek I t bi = (True, bi')"
  shows "mint bi \<le> fst (boundedSeriesIterator_At I bi')" "t \<le> fst (boundedSeriesIterator_At I bi')"
  using assms
  by (auto simp: boundedSeriesIterator_Seek_def boundedSeriesIterator_At_def Seek_reaches_def Let_def
      split: if_splits prod.splits dest!: spec[of _ "if t < mint bi then mint bi else t"] spec[of _ "it bi"])

lemma boundedSeriesIterator_Next_in_range:
  assumes "Seek_reaches I" "boundedSeriesIterator_Next I bi = (True, bi')"
  shows "mint bi \<le> fst (boundedSeriesIterator_At I bi') \<and> fst (boundedSeriesIterator_At I bi') \<le> maxt bi"
proof -
  obtain ok s where n: "Next I (it bi) = (ok, s)" by (cases "Next I (it bi)")
  show ?thesis
  proof (cases "fst (At I s) < mint bi")
    case False
    with assms(2) n show ?thesis
      by (auto simp: boundedSeriesIterator_Next_def boundedSeriesIterator_At_def Let_def split: if_splits)
  next
    case True
    obtain ok2 bi2 where sk: "boundedSeriesIterator_Seek I (mint bi) (bi\<lparr>it := s\<rparr>) = (ok2, bi2)"
      by (cases "boundedSeriesIterator_Seek I (mint bi) (bi\<lparr>it := s\<rparr>)")
    from assms(2) n True sk have ok2 and e: "bi' = bi2" and le: "fst (At I (it bi2)) \<le> maxt bi2"
      by (auto simp: boundedSeriesIterator_Next_def Let_def split: if_splits)
    from sk \<open>ok2\<close> boundedSeriesIterator_Seek_lower(1)[OF assms(1), of "mint bi" "bi\<lparr>it := s\<rparr>" bi2]
    have "mint bi \<le> fst (boundedSeriesIterator_At I bi2)" by simp
    moreover from sk have "maxt bi2 = maxt bi"
      by (auto simp: boundedSeriesIterator_Seek_def Let_def split: if_splits prod.splits)
    ultimately show ?thesis using e le by (simp add: boundedSeriesIterator_At_def)
  qed
qed

text \<open>
  Claim C3. The claim says that after every successful \<^verbatim>\<open>Next\<close> or \<^verbatim>\<open>Seek\<close> the
  current timestamp lies between \<open>mint\<close> and \<open>maxt\<close>. \<^verbatim>\<open>Seek\<close> compares only its
  target with \<open>maxt\<close>, never the sample the wrapped cursor lands on: with the window 1 to
  50 over a chunk whose only sample is at 100, \<^verbatim>\<open>Seek(10)\<close> succeeds and the current
  timestamp is 100.
\<close>

theorem boundedSeriesIterator_Seek_past_maxt:
  "boundedSeriesIterator_Seek chunkSeriesIterator_ops 10 bounded_50 =
     (True, \<lparr>it = \<lparr>chunks = [\<lparr>cur = (100, 7), rest = [], err = None, pending = None\<rparr>], i = 0\<rparr>,
             mint = 1, maxt = 50\<rparr>)
   \<and> fst (boundedSeriesIterator_At chunkSeriesIterator_ops
             (snd (boundedSeriesIterator_Seek chunkSeriesIterator_ops 10 bounded_50))) = 100
   \<and> maxt (snd (boundedSeriesIterator_Seek chunkSeriesIterator_ops 10 bounded_50)) = 50"
  by (simp add: bounded_50_def eval_defs)

section \<open>The label set of a replica group\<close>

text \<open>
  Where the label set has at least as many labels as replica label names are configured,
  the loop counts the replica labels among the last ones. For a label set that carries
  its replica labels \<open>ys\<close> at the end, after the other labels \<open>xs\<close>, \<^verbatim>\<open>peekLset\<close>
  returns \<open>xs\<close>: the replica labels are removed and no other label is.
\<close>

lemma peekLset_loop_count:
  "card R \<le> length lset \<Longrightarrow> index \<le> card R \<Longrightarrow>
   peekLset_loop R lset index tot =
     Inr (tot + length (filter (\<lambda>j. Name (lset ! (length lset - Suc j)) \<in> R) [index..<card R]))"
proof (induction "card R - index" arbitrary: index tot)
  case 0
  then have "index = card R" by simp
  then show ?case by (simp add: peekLset_loop.simps[of R lset "card R" tot])
next
  case (Suc m)
  from Suc.hyps(2) have lt: "index < card R" by simp
  with Suc.prems(1) have pos: "\<not> int (length lset) - int index - 1 < 0" by simp
  from lt Suc.prems(1) have ix: "nat (int (length lset) - int index - 1) = length lset - Suc index"
    by simp
  from Suc.hyps(2) have m: "m = card R - (index + 1)" by simp
  from lt have le: "index + 1 \<le> card R" by simp
  note ih = Suc.hyps(1)[OF m Suc.prems(1) le]
  from lt have up: "[index..<card R] = index # [index + 1..<card R]"
    by (simp add: upt_conv_Cons)
  show ?case
    using lt pos ix ih[of "tot + 1"] ih[of tot] up
    by (subst peekLset_loop.simps) simp
qed

lemma peekLset_strips_trailing_replica_labels:
  assumes fin: "finite R" and len: "card R \<le> length (xs @ ys)"
    and nx: "\<forall>l \<in> set xs. Name l \<notin> R" and ny: "\<forall>l \<in> set ys. Name l \<in> R"
    and dist: "distinct (map Name ys)"
  shows "peekLset R (xs @ ys) = Inr xs"
proof (cases "card R = 0")
  case True
  with fin have "R = {}" by simp
  with ny have "ys = []" by (cases ys) auto
  with True show ?thesis by (simp add: peekLset_def)
next
  case False
  let ?l = "xs @ ys"
  from dist have "card (Name ` set ys) = length ys"
    by (simp add: distinct_card flip: set_map)
  moreover from ny have "Name ` set ys \<subseteq> R" by auto
  ultimately have ly: "length ys \<le> card R" using card_mono[OF fin] by metis
  have "filter (\<lambda>j. Name (?l ! (length ?l - Suc j)) \<in> R) [0..<card R] = [0..<length ys]"
  proof -
    have "Name (?l ! (length ?l - Suc j)) \<in> R \<longleftrightarrow> j < length ys" if "j < card R" for j
    proof (cases "j < length ys")
      case True
      then have "?l ! (length ?l - Suc j) = ys ! (length ys - Suc j)"
        by (simp add: nth_append)
      moreover from True have "ys ! (length ys - Suc j) \<in> set ys" by simp
      ultimately show ?thesis using ny True by simp
    next
      case False
      with that len have "length ?l - Suc j < length xs" by simp
      then have "?l ! (length ?l - Suc j) \<in> set xs" by (simp add: nth_append)
      with nx False show ?thesis by simp
    qed
    then have "filter (\<lambda>j. Name (?l ! (length ?l - Suc j)) \<in> R) [0..<card R]
             = filter (\<lambda>j. j < length ys) [0..<card R]"
      by (intro filter_cong) simp_all
    also have "\<dots> = [0..<length ys]"
    proof -
      from ly have "[0..<card R] = [0..<length ys] @ [length ys..<card R]"
        using upt_add_eq_append[of 0 "length ys" "card R - length ys"] by simp
      then show ?thesis by (simp add: filter_empty_conv)
    qed
    finally show ?thesis .
  qed
  with peekLset_loop_count[OF len, of 0 0]
  have "peekLset_loop R ?l 0 0 = Inr (length ys)" by simp
  with False show ?thesis by (simp add: peekLset_def)
qed

text \<open>
  Claim C6. The claim says that \<^verbatim>\<open>peekLset\<close> strips the replica labels of every label
  set that carries them at its end. The loop runs once for every configured replica label
  name and indexes the label set from its end, so a label set with fewer labels than
  names are configured makes it index below zero: with two replica label names and the
  one label \<^verbatim>\<open>a="1"\<close>, which has no replica label to strip, the code panics.
\<close>

theorem peekLset_short_label_set_panics:
  "peekLset {''replica'', ''rule_replica''} [\<lparr>Name = ''a'', Value = ''1''\<rparr>] = Inl IndexOutOfRange"
  by (simp add: peekLset_def peekLset_loop.simps)

section \<open>Order of the chunk series iterator\<close>

text \<open>
  Over fresh chunk cursors with timestamps that are not negative, a successful
  \<^verbatim>\<open>Seek\<close> or \<^verbatim>\<open>Next\<close> leaves a running iterator, \<^verbatim>\<open>Seek\<close> stands at or after
  its target, and \<^verbatim>\<open>Next\<close> on a running iterator moves to a larger timestamp: the
  timestamps of the emitted samples are strictly increasing.
\<close>

lemma chunk_Next_True:
  assumes "chunk_Next c = (True, c')" "chunk_fresh c \<or> chunk_running c"
  shows "chunk_running c'" "chunk_running c \<Longrightarrow> fst (cur c) < fst (cur c')"
  using assms
  by (fastforce simp add: chunk_Next_def chunk_fresh_def chunk_running_def list_all_iff
        split: if_splits list.splits)+

lemma chunk_Next_False:
  assumes "chunk_Next c = (False, c')"
  shows "cur c' = cur c" "rest c' = rest c"
  using assms by (auto simp add: chunk_Next_def split: if_splits list.splits)

lemma later_fresh_update:
  "later_fresh ci \<Longrightarrow> later_fresh (ci\<lparr>chunks := (chunks ci)[i ci := c]\<rparr>)"
  by (simp add: later_fresh_def drop_update_cancel)

lemma later_fresh_Suc:
  assumes "later_fresh ci" "Suc (i ci) < length (chunks ci)"
  shows "state_fresh (ci\<lparr>chunks := (chunks ci)[i ci := c], i := Suc (i ci)\<rparr>)"
proof -
  from assms have "list_all chunk_fresh (chunks ci ! Suc (i ci) # drop (Suc (Suc (i ci))) (chunks ci))"
    by (simp add: later_fresh_def Cons_nth_drop_Suc)
  with assms(2) show ?thesis
    by (simp add: state_fresh_def later_fresh_def drop_update_cancel)
qed

lemma add64_Suc: "0 \<le> l \<Longrightarrow> l < MaxInt64 \<Longrightarrow> add64 l 1 = l + 1"
  by (simp add: add64_def wrap64_def MaxInt64_def)

lemma ordered_steps:
  "(state_running ci \<or> (state_fresh ci \<and> 0 < t)) \<Longrightarrow>
     chunkSeriesIterator_Seek t ci = (True, ci') \<Longrightarrow>
     state_running ci' \<and> t \<le> fst (chunkSeriesIterator_At ci')"
  "(state_running cj \<or> state_fresh cj) \<Longrightarrow>
     chunkSeriesIterator_Next cj = (True, cj') \<Longrightarrow>
     state_running cj' \<and> (state_running cj \<longrightarrow>
        fst (chunkSeriesIterator_At cj) < fst (chunkSeriesIterator_At cj'))"
proof (induction t ci and cj arbitrary: ci' and cj'
        rule: chunkSeriesIterator_Seek_chunkSeriesIterator_Next.induct)
  case (1 t ci)
  from "1.prems"(1) have wf: "i ci < length (chunks ci)"
    by (auto simp add: state_running_def state_fresh_def later_fresh_def)
  show ?case
  proof (cases "t \<le> fst (chunkSeriesIterator_At ci)")
    case True
    with "1.prems"(2) wf have e: "ci' = ci" by (simp add: Seek_unf)
    from True "1.prems"(1) have "state_running ci"
      by (auto simp add: state_fresh_def chunk_fresh_def chunkSeriesIterator_At_def chunk_At_def)
    with e True show ?thesis by simp
  next
    case False
    obtain ok c1 where n: "chunkSeriesIterator_Next ci = (ok, c1)"
      by (cases "chunkSeriesIterator_Next ci")
    from False "1.prems"(2) wf n have ok: ok and sk: "chunkSeriesIterator_Seek t c1 = (True, ci')"
      by (auto simp add: Seek_unf split: if_splits)
    from "1.prems"(1) have pre: "state_running ci \<or> state_fresh ci" by blast
    from wf have p1: "\<not> \<not> i ci < length (chunks ci)" by simp
    from n ok have n1: "chunkSeriesIterator_Next ci = (True, c1)" by simp
    from "1.IH"(1)[OF p1 refl False pre n1] have r1: "state_running c1" by simp
    then have pre1: "state_running c1 \<or> (state_fresh c1 \<and> 0 < t)" by simp
    from "1.IH"(2)[OF p1 refl False n1[symmetric] refl pre1 sk] show ?thesis .
  qed
next
  case (2 cj)
  from "2.prems"(1) have wf: "i cj < length (chunks cj)" and lf: "later_fresh cj"
    and cur: "chunk_fresh (chunks cj ! i cj) \<or> chunk_running (chunks cj ! i cj)"
    by (auto simp add: state_running_def state_fresh_def later_fresh_def)
  obtain ok c where cn: "chunk_Next (chunks cj ! i cj) = (ok, c)"
    by (cases "chunk_Next (chunks cj ! i cj)")
  let ?c1 = "cj\<lparr>chunks := (chunks cj)[i cj := c]\<rparr>"
  note u = Next_unf[OF wf cn]
  show ?case
  proof (cases ok)
    case True
    with "2.prems"(2) u have e: "cj' = ?c1" by simp
    from cn True have cnT: "chunk_Next (chunks cj ! i cj) = (True, c)" by simp
    from chunk_Next_True[OF cnT cur] wf lf
    show ?thesis
      by (simp add: e state_running_def later_fresh_update chunkSeriesIterator_At_def chunk_At_def)
  next
    case False
    let ?c2 = "cj\<lparr>chunks := (chunks cj)[i cj := c], i := Suc (i cj)\<rparr>"
    from False "2.prems"(2) u have ne: "chunk_Err c = None" and ln: "Suc (i cj) < length (chunks cj)"
      and sk: "chunkSeriesIterator_Seek (add64 (fst (chunkSeriesIterator_At cj)) 1) ?c2 = (True, cj')"
      by (auto split: if_splits)
    have fr: "state_fresh ?c2" by (rule later_fresh_Suc[OF lf ln])
    from cur have b: "0 \<le> fst (chunkSeriesIterator_At cj)" "fst (chunkSeriesIterator_At cj) < MaxInt64"
      by (auto simp add: chunk_fresh_def chunk_running_def chunkSeriesIterator_At_def chunk_At_def MaxInt64_def)
    then have a: "add64 (fst (chunkSeriesIterator_At cj)) 1 = fst (chunkSeriesIterator_At cj) + 1"
      by (rule add64_Suc)
    from b a have pos: "0 < add64 (fst (chunkSeriesIterator_At cj)) 1" by simp
    from wf have p1: "\<not> \<not> i cj < length (chunks cj)" by simp
    from cn False have cn1: "(False, c) = chunk_Next (chunks cj ! i cj)" by simp
    from wf ne have ne1: "\<not> chunkSeriesIterator_Err ?c1 \<noteq> None"
      by (simp add: chunkSeriesIterator_Err_def)
    from ln have ln1: "\<not> int (length (chunks ?c1)) - 1 \<le> int (i ?c1)" by simp
    have c2: "?c1\<lparr>i := i ?c1 + 1\<rparr> = ?c2" by simp
    from fr pos have pre2: "state_running ?c2 \<or> (state_fresh ?c2 \<and> 0 < add64 (fst (chunkSeriesIterator_At cj)) 1)"
      by simp
    have nf: "\<not> False" by simp
    note ih = "2.IH"[OF p1 refl refl cn1 refl nf ne1 ln1, unfolded c2, OF pre2 sk]
    have "state_running cj' \<and> add64 (fst (chunkSeriesIterator_At cj)) 1 \<le> fst (chunkSeriesIterator_At cj')"
      by (rule ih)
    with a show ?thesis by simp
  qed
qed

lemma emitted_running:
  "state_running ci \<Longrightarrow>
   sorted_wrt (<) (fst (chunkSeriesIterator_At ci) # map fst (emitted chunkSeriesIterator_ops n ci))"
proof (induction n arbitrary: ci)
  case 0
  show ?case by simp
next
  case (Suc n)
  obtain ok c1 where nx: "chunkSeriesIterator_Next ci = (ok, c1)"
    by (cases "chunkSeriesIterator_Next ci")
  show ?case
  proof (cases ok)
    case False
    with nx show ?thesis by (simp add: chunkSeriesIterator_ops_def)
  next
    case True
    from nx True have nx1: "chunkSeriesIterator_Next ci = (True, c1)" by simp
    from Suc.prems have "state_running ci \<or> state_fresh ci" by simp
    from ordered_steps(2)[OF this nx1] Suc.prems
    have r: "state_running c1" and lt: "fst (chunkSeriesIterator_At ci) < fst (chunkSeriesIterator_At c1)"
      by simp_all
    from Suc.IH[OF r] lt
    have "sorted_wrt (<) (fst (chunkSeriesIterator_At ci) # fst (chunkSeriesIterator_At c1)
             # map fst (emitted chunkSeriesIterator_ops n c1))"
      by (fastforce simp add: sorted_wrt2[OF transp_on_less])
    with nx True show ?thesis by (simp add: chunkSeriesIterator_ops_def)
  qed
qed

lemma chunkSeriesIterator_ordered:
  assumes "cs \<noteq> []" and "list_all chunk_fresh cs"
  shows "sorted_wrt (<) (map fst (emitted chunkSeriesIterator_ops n \<lparr>chunks = cs, i = 0\<rparr>))"
proof (cases n)
  case 0
  then show ?thesis by simp
next
  case (Suc m)
  let ?c0 = "\<lparr>chunks = cs, i = 0\<rparr>"
  from assms have fr: "state_running ?c0 \<or> state_fresh ?c0"
    by (cases cs) (simp_all add: state_fresh_def later_fresh_def)
  obtain ok c1 where nx: "chunkSeriesIterator_Next ?c0 = (ok, c1)"
    by (cases "chunkSeriesIterator_Next ?c0")
  show ?thesis
  proof (cases ok)
    case False
    with nx Suc show ?thesis by (simp add: chunkSeriesIterator_ops_def)
  next
    case True
    from nx True have nx1: "chunkSeriesIterator_Next ?c0 = (True, c1)" by simp
    from ordered_steps(2)[OF fr nx1] have "state_running c1" by simp
    from emitted_running[OF this, of m] nx True Suc show ?thesis
      by (simp add: chunkSeriesIterator_ops_def)
  qed
qed

text \<open>
  Claim C2. The claim says that the timestamps of the samples of successive calls of
  \<^verbatim>\<open>Next\<close> are strictly increasing. When a chunk is used up, \<^verbatim>\<open>Next\<close> calls
  \<^verbatim>\<open>Seek(lastT + 1)\<close> on the next chunk, and \<^verbatim>\<open>Seek\<close> first reads \<^verbatim>\<open>At\<close> of that
  chunk's cursor, which has not been advanced and returns the timestamp 0. With a last
  timestamp below zero the test \<open>ct \<ge> t\<close> holds at once: \<^verbatim>\<open>Next\<close> returns true on
  a sample \<open>(0, 0)\<close> that is in no chunk, and the next call goes back to the chunk's
  first sample. Two chunks, sorted, with one sample each at -10 and at -5, give the
  timestamps -10, 0, -5.
\<close>

theorem chunkSeriesIterator_negative_timestamps:
  "emitted chunkSeriesIterator_ops 3
     \<lparr>chunks = [xorIterator ([(- 10, 1)], None), xorIterator ([(- 5, 2)], None)], i = 0\<rparr>
   = [(- 10, 1), (0, 0), (- 5, 2)]"
  by (simp add: eval_defs numeral_3_eq_3)

section \<open>Seek of the replica deduplication iterator\<close>

lemma Seek_unfold:
  "dedupSeriesIterator_Seek IA IB t d =
     (if dedup_test IA IB t d then Some (True, d)
      else if \<not> fst (dedupSeriesIterator_Next IA IB d) then Some (False, snd (dedupSeriesIterator_Next IA IB d))
      else dedupSeriesIterator_Seek IA IB t (snd (dedupSeriesIterator_Next IA IB d)))"
  by (subst dedupSeriesIterator_Seek.simps) (simp add: dedup_test_def Let_def split: prod.splits)

lemma Seek_skips:
  "dedup_skips IA IB t k d \<Longrightarrow>
   dedupSeriesIterator_Seek IA IB t d = dedupSeriesIterator_Seek IA IB t (dedup_after IA IB k d)"
proof (induction k arbitrary: d)
  case 0
  show ?case by simp
next
  case (Suc k)
  from Suc.prems have "dedupSeriesIterator_Seek IA IB t d
      = dedupSeriesIterator_Seek IA IB t (snd (dedupSeriesIterator_Next IA IB d))"
    by (subst Seek_unfold) simp
  with Suc show ?case by simp
qed

lemma stops_now: "dedup_test IA IB t d \<Longrightarrow> dedup_stops IA IB t d (True, d) 0"
  by (simp add: dedup_stops_def)

lemma stops_end:
  "\<not> dedup_test IA IB t d \<Longrightarrow> dedupSeriesIterator_Next IA IB d = (False, d1) \<Longrightarrow>
   dedup_stops IA IB t d (False, d1) 0"
  by (simp add: dedup_stops_def)

lemma stops_later:
  "\<not> dedup_test IA IB t d \<Longrightarrow> dedupSeriesIterator_Next IA IB d = (True, d1) \<Longrightarrow>
   dedup_stops IA IB t d1 y k \<Longrightarrow> dedup_stops IA IB t d y (Suc k)"
  by (simp add: dedup_stops_def)

lemma Seek_returns:
  assumes "dedupSeriesIterator_Seek IA IB t d = Some y"
  shows "\<exists>k. dedup_stops IA IB t d y k"
proof (rule dedupSeriesIterator_Seek.raw_induct
    [where P = "\<lambda>IA IB t d y. \<exists>k. dedup_stops IA IB t d y k", OF _ assms], goal_cases)
  case (1 f IA IB t d y)
  note ih = "1"(1)
  obtain ok d1 where n: "dedupSeriesIterator_Next IA IB d = (ok, d1)"
    by (cases "dedupSeriesIterator_Next IA IB d")
  from "1"(2) have body:
    "(if dedup_test IA IB t d then Some (True, d)
      else if \<not> ok then Some (False, d1) else f IA IB t d1) = Some y"
    by (auto simp add: dedup_test_def Let_def n split: if_splits)
  show ?case
  proof (cases "dedup_test IA IB t d")
    case True
    with body have "y = (True, d)" by simp
    with True have "dedup_stops IA IB t d y 0" by (simp add: stops_now)
    then show ?thesis ..
  next
    case False
    show ?thesis
    proof (cases ok)
      case False
      with body \<open>\<not> dedup_test IA IB t d\<close> have "y = (False, d1)" by simp
      with \<open>\<not> dedup_test IA IB t d\<close> n False have "dedup_stops IA IB t d y 0"
        by (simp add: stops_end)
      then show ?thesis ..
    next
      case True
      with body \<open>\<not> dedup_test IA IB t d\<close> have "f IA IB t d1 = Some y" by simp
      from ih[OF this] obtain k where "dedup_stops IA IB t d1 y k" ..
      with \<open>\<not> dedup_test IA IB t d\<close> n True have "dedup_stops IA IB t d y (Suc k)"
        by (simp add: stops_later)
      then show ?thesis ..
    qed
  qed
qed

lemma Seek_stops:
  assumes "dedup_stops IA IB t d y k"
  shows "dedupSeriesIterator_Seek IA IB t d = Some y"
proof -
  from assms have sk: "dedup_skips IA IB t k d" by (simp add: dedup_stops_def)
  have e: "dedupSeriesIterator_Seek IA IB t d = dedupSeriesIterator_Seek IA IB t (dedup_after IA IB k d)"
    by (rule Seek_skips[OF sk])
  show ?thesis
  proof (cases "fst y")
    case True
    with assms have "dedup_after IA IB k d = snd y" "dedup_test IA IB t (snd y)"
      by (simp_all add: dedup_stops_def)
    with True have "dedupSeriesIterator_Seek IA IB t (dedup_after IA IB k d) = Some y"
      by (subst Seek_unfold) (simp add: prod_eq_iff)
    with e show ?thesis by simp
  next
    case False
    with assms have "\<not> dedup_test IA IB t (dedup_after IA IB k d)"
      "dedupSeriesIterator_Next IA IB (dedup_after IA IB k d) = (False, snd y)"
      by (simp_all add: dedup_stops_def)
    with False have "dedupSeriesIterator_Seek IA IB t (dedup_after IA IB k d) = Some y"
      by (subst Seek_unfold) (simp add: prod_eq_iff)
    with e show ?thesis by simp
  qed
qed

text \<open>
  Claim C8, amended. \<^verbatim>\<open>Seek(t)\<close> calls \<^verbatim>\<open>Next\<close> until the current timestamp is both
  above 0 and at least \<open>t\<close> (\<open>dedup_test\<close>). It returns true exactly when some number
  \<open>k\<close> of calls of \<^verbatim>\<open>Next\<close> succeed on states that fail the test and the state
  after them passes it, and that state is the result: it stops at the first state that
  passes the test. It returns false exactly when the states before a failing call of
  \<^verbatim>\<open>Next\<close> all fail the test. When neither happens it does not return.
\<close>

theorem dedupSeriesIterator_Seek_result:
  "(dedupSeriesIterator_Seek IA IB t d = Some (True, d') \<longleftrightarrow>
      (\<exists>k. dedup_skips IA IB t k d \<and> dedup_after IA IB k d = d' \<and> dedup_test IA IB t d'))
   \<and> (dedupSeriesIterator_Seek IA IB t d = Some (False, d') \<longleftrightarrow>
      (\<exists>k. dedup_skips IA IB t k d \<and> \<not> dedup_test IA IB t (dedup_after IA IB k d)
           \<and> dedupSeriesIterator_Next IA IB (dedup_after IA IB k d) = (False, d')))"
proof -
  have 1: "dedupSeriesIterator_Seek IA IB t d = Some y \<longleftrightarrow> (\<exists>k. dedup_stops IA IB t d y k)" for y
    using Seek_returns[of IA IB t d y] Seek_stops[of IA IB t d y] by blast
  show ?thesis
    using 1[of "(True, d')"] 1[of "(False, d')"] by (simp add: dedup_stops_def)
qed

lemma wD0_Next:
  "dedupSeriesIterator_Next (boundedSeriesIterator_ops chunkSeriesIterator_ops) errSeriesIterator wD0 = (True, wD1)"
  by (simp add: wD0_def wD1_def wA0_def newDedupSeriesIterator_def dedupSeriesIterator_Next_def
        errSeriesIterator_def eval_defs Let_def)

lemma wD1_Next:
  "dedupSeriesIterator_Next (boundedSeriesIterator_ops chunkSeriesIterator_ops) errSeriesIterator wD1 = (True, wD2)"
  by (simp add: wD2_def wD1_def wA0_def dedupSeriesIterator_Next_def
        errSeriesIterator_def eval_defs Let_def)

lemma wD1_At:
  "dedupSeriesIterator_At (boundedSeriesIterator_ops chunkSeriesIterator_ops) errSeriesIterator wD1 = (0, 0)"
  by (simp add: wD1_def wA0_def dedupSeriesIterator_At_def eval_defs)

lemma wD2_At:
  "dedupSeriesIterator_At (boundedSeriesIterator_ops chunkSeriesIterator_ops) errSeriesIterator wD2 = (10, 1)"
  by (simp add: wD2_def dedupSeriesIterator_At_def eval_defs)

text \<open>
  Claim C8 as stated fails: the test of the loop also asks for a timestamp above 0. After
  one call of \<^verbatim>\<open>Next\<close> the current timestamp of \<open>wD1\<close> is 0, and \<^verbatim>\<open>Seek(0)\<close> does
  not stop there: it goes past the sample at 0 and returns at the timestamp 10.
\<close>

theorem dedupSeriesIterator_Seek_skips_zero:
  "dedupSeriesIterator_Next (boundedSeriesIterator_ops chunkSeriesIterator_ops) errSeriesIterator wD0 = (True, wD1)
   \<and> fst (dedupSeriesIterator_At (boundedSeriesIterator_ops chunkSeriesIterator_ops) errSeriesIterator wD1) = 0
   \<and> dedupSeriesIterator_Seek (boundedSeriesIterator_ops chunkSeriesIterator_ops) errSeriesIterator 0 wD1
       = Some (True, wD2)
   \<and> fst (dedupSeriesIterator_At (boundedSeriesIterator_ops chunkSeriesIterator_ops) errSeriesIterator wD2) = 10"
  by (simp add: wD0_Next wD1_At wD2_At Seek_unfold[of _ _ _ wD1] Seek_unfold[of _ _ _ wD2]
        dedup_test_def wD1_Next)

lemma wD'_steps:
  "dedupSeriesIterator_Next (boundedSeriesIterator_ops chunkSeriesIterator_ops)
      (boundedSeriesIterator_ops chunkSeriesIterator_ops) wD' =
     (True, \<lparr>a = \<lparr>it = \<lparr>chunks = [\<lparr>cur = (10, 1), rest = [(20, 2)], err = None, pending = None\<rparr>], i = 0\<rparr>,
                  mint = 1, maxt = 100\<rparr>,
             b = \<lparr>it = \<lparr>chunks = [\<lparr>cur = (12, 3), rest = [(22, 4)], err = None, pending = None\<rparr>], i = 0\<rparr>,
                  mint = 1, maxt = 100\<rparr>,
             aok = True, bok = True, lastT = 10, penA = 0, penB = 5000, useA = True\<rparr>)"
  "dedupSeriesIterator_Next (boundedSeriesIterator_ops chunkSeriesIterator_ops)
      (boundedSeriesIterator_ops chunkSeriesIterator_ops)
      \<lparr>a = \<lparr>it = \<lparr>chunks = [\<lparr>cur = (10, 1), rest = [(20, 2)], err = None, pending = None\<rparr>], i = 0\<rparr>,
                  mint = 1, maxt = 100\<rparr>,
             b = \<lparr>it = \<lparr>chunks = [\<lparr>cur = (12, 3), rest = [(22, 4)], err = None, pending = None\<rparr>], i = 0\<rparr>,
                  mint = 1, maxt = 100\<rparr>,
             aok = True, bok = True, lastT = 10, penA = 0, penB = 5000, useA = True\<rparr> =
     (True, \<lparr>a = \<lparr>it = \<lparr>chunks = [\<lparr>cur = (20, 2), rest = [], err = None, pending = None\<rparr>], i = 0\<rparr>,
                  mint = 1, maxt = 100\<rparr>,
             b = \<lparr>it = \<lparr>chunks = [\<lparr>cur = (12, 3), rest = [(22, 4)], err = None, pending = None\<rparr>], i = 0\<rparr>,
                  mint = 1, maxt = 100\<rparr>,
             aok = True, bok = False, lastT = 20, penA = 0, penB = 5000, useA = True\<rparr>)"
  by (simp_all add: wD'_def wA_def wB_def newDedupSeriesIterator_def dedupSeriesIterator_Next_def
        initialPenality_def eval_defs Let_def)

theorem dedupSeriesIterator_Seek_result_witness:
  "dedupSeriesIterator_Seek (boundedSeriesIterator_ops chunkSeriesIterator_ops)
      (boundedSeriesIterator_ops chunkSeriesIterator_ops) 15 wD' =
     Some (True, \<lparr>a = \<lparr>it = \<lparr>chunks = [\<lparr>cur = (20, 2), rest = [], err = None, pending = None\<rparr>], i = 0\<rparr>,
                  mint = 1, maxt = 100\<rparr>,
             b = \<lparr>it = \<lparr>chunks = [\<lparr>cur = (12, 3), rest = [(22, 4)], err = None, pending = None\<rparr>], i = 0\<rparr>,
                  mint = 1, maxt = 100\<rparr>,
             aok = True, bok = False, lastT = 20, penA = 0, penB = 5000, useA = True\<rparr>)"
proof -
  let ?I = "boundedSeriesIterator_ops chunkSeriesIterator_ops"
  let ?d2 = "\<lparr>a = \<lparr>it = \<lparr>chunks = [\<lparr>cur = (20, 2), rest = [], err = None, pending = None\<rparr>], i = 0\<rparr>,
                  mint = 1, maxt = 100\<rparr>,
             b = \<lparr>it = \<lparr>chunks = [\<lparr>cur = (12, 3), rest = [(22, 4)], err = None, pending = None\<rparr>], i = 0\<rparr>,
                  mint = 1, maxt = 100\<rparr>,
             aok = True, bok = False, lastT = 20, penA = 0, penB = 5000, useA = True\<rparr>"
  have t0: "\<not> dedup_test ?I ?I 15 wD'"
    by (simp add: dedup_test_def wD'_def wA_def wB_def newDedupSeriesIterator_def
          dedupSeriesIterator_At_def eval_defs)
  have sk: "dedup_skips ?I ?I 15 (Suc (Suc 0)) wD'"
    by (simp add: t0 wD'_steps) (simp add: dedup_test_def dedupSeriesIterator_At_def eval_defs)
  have af: "dedup_after ?I ?I (Suc (Suc 0)) wD' = ?d2"
    by (simp add: wD'_steps)
  have t2: "dedup_test ?I ?I 15 ?d2"
    by (simp add: dedup_test_def dedupSeriesIterator_At_def eval_defs)
  from sk af t2 show ?thesis
    using dedupSeriesIterator_Seek_result[of ?I ?I 15 wD' ?d2] by blast
qed

section \<open>Order of the replicas in a pairwise merge\<close>

lemma mirrored_new: "mirrored (newDedupSeriesIterator x y) (newDedupSeriesIterator y x)"
  by (simp add: mirrored_def newDedupSeriesIterator_def)

lemma mirrored_Next:
  assumes m: "mirrored d e"
    and nt: "\<not> dedup_tie IA IB (snd (dedupSeriesIterator_Next IA IB d))"
  shows "fst (dedupSeriesIterator_Next IB IA e) = fst (dedupSeriesIterator_Next IA IB d)"
    and "mirrored (snd (dedupSeriesIterator_Next IA IB d)) (snd (dedupSeriesIterator_Next IB IA e))"
    and "fst (dedupSeriesIterator_Next IA IB d) \<Longrightarrow>
         dedupSeriesIterator_At IB IA (snd (dedupSeriesIterator_Next IB IA e))
         = dedupSeriesIterator_At IA IB (snd (dedupSeriesIterator_Next IA IB d))"
proof -
  obtain oa sa where ra: "Seek IA (add64 (add64 (lastT d) 1) (penA d)) (a d) = (oa, sa)"
    by (cases "Seek IA (add64 (add64 (lastT d) 1) (penA d)) (a d)")
  obtain ob sb where rb: "Seek IB (add64 (add64 (lastT d) 1) (penB d)) (b d) = (ob, sb)"
    by (cases "Seek IB (add64 (add64 (lastT d) 1) (penB d)) (b d)")
  from m have f: "a e = b d" "b e = a d" "aok e = bok d" "bok e = aok d" "lastT e = lastT d"
      "penA e = penB d" "penB e = penA d"
    by (simp_all add: mirrored_def)
  have "fst (dedupSeriesIterator_Next IB IA e) = fst (dedupSeriesIterator_Next IA IB d)
      \<and> mirrored (snd (dedupSeriesIterator_Next IA IB d)) (snd (dedupSeriesIterator_Next IB IA e))
      \<and> (fst (dedupSeriesIterator_Next IA IB d) \<longrightarrow>
         dedupSeriesIterator_At IB IA (snd (dedupSeriesIterator_Next IB IA e))
         = dedupSeriesIterator_At IA IB (snd (dedupSeriesIterator_Next IA IB d)))"
    using nt
    by (cases "aok d"; cases "bok d"; cases oa; cases ob)
       (auto simp add: f ra rb dedupSeriesIterator_Next_def dedupSeriesIterator_At_def Let_def
          mirrored_def dedup_tie_def)
  then show "fst (dedupSeriesIterator_Next IB IA e) = fst (dedupSeriesIterator_Next IA IB d)"
    and "mirrored (snd (dedupSeriesIterator_Next IA IB d)) (snd (dedupSeriesIterator_Next IB IA e))"
    and "fst (dedupSeriesIterator_Next IA IB d) \<Longrightarrow>
         dedupSeriesIterator_At IB IA (snd (dedupSeriesIterator_Next IB IA e))
         = dedupSeriesIterator_At IA IB (snd (dedupSeriesIterator_Next IA IB d))"
    by simp_all
qed

lemma mirrored_emitted:
  "mirrored d e \<Longrightarrow> dedup_tie_free IA IB n d \<Longrightarrow>
   dedup_emitted IB IA n e = dedup_emitted IA IB n d"
proof (induction n arbitrary: d e)
  case 0
  show ?case by simp
next
  case (Suc n)
  from Suc.prems(2) have nt: "\<not> dedup_tie IA IB (snd (dedupSeriesIterator_Next IA IB d))"
    by simp
  note st = mirrored_Next[OF Suc.prems(1) nt]
  show ?case
  proof (cases "fst (dedupSeriesIterator_Next IA IB d)")
    case False
    with st(1) show ?thesis by (simp add: case_prod_beta)
  next
    case True
    with Suc.prems(2) have "dedup_tie_free IA IB n (snd (dedupSeriesIterator_Next IA IB d))"
      by simp
    from Suc.IH[OF st(2) this] True st(1) st(3) show ?thesis
      by (simp add: case_prod_beta)
  qed
qed

text \<open>
  Claim C5, amended. As long as no call of \<^verbatim>\<open>Next\<close> finds both sides live at the same
  timestamp, the merge of \<open>(x, y)\<close> and the merge of \<open>(y, x)\<close> emit the same samples,
  timestamps and values: for every \<open>n\<close>, the samples of the first \<open>n\<close> calls are equal.
\<close>

theorem dedup_order_insensitive_without_ties:
  "dedup_tie_free IA IB n (newDedupSeriesIterator x y) \<Longrightarrow>
   dedup_emitted IB IA n (newDedupSeriesIterator y x)
   = dedup_emitted IA IB n (newDedupSeriesIterator x y)"
  by (rule mirrored_emitted[OF mirrored_new])

lemmas dedup_eval_defs =
  newDedupSeriesIterator_def dedupSeriesIterator_Next_def dedupSeriesIterator_At_def
  initialPenality_def Let_def

text \<open>
  Claim C5 as stated fails: a tie does more than choose the side that supplies the sample.
  The side that wins the tie keeps the penalty 0 and the other side gets the penalty, so
  the two orders go on differently. With \<open>tA\<close> and \<open>tB\<close>, which both start at 10, the
  merge of \<open>(tA, tB)\<close> emits the timestamps 10, 20 and the merge of \<open>(tB, tA)\<close> emits 10, 25.
\<close>

theorem dedup_order_sensitive_after_tie:
  "dedup_emitted (boundedSeriesIterator_ops chunkSeriesIterator_ops)
      (boundedSeriesIterator_ops chunkSeriesIterator_ops) 3 (newDedupSeriesIterator tA tB)
     = [(10, 1), (20, 2)]
   \<and> dedup_emitted (boundedSeriesIterator_ops chunkSeriesIterator_ops)
      (boundedSeriesIterator_ops chunkSeriesIterator_ops) 3 (newDedupSeriesIterator tB tA)
     = [(10, 1), (25, 3)]"
  by (simp add: numeral_3_eq_3 tA_def tB_def dedup_eval_defs eval_defs)

theorem dedup_order_insensitive_without_ties_witness:
  "dedup_emitted (boundedSeriesIterator_ops chunkSeriesIterator_ops)
      (boundedSeriesIterator_ops chunkSeriesIterator_ops) 3 (newDedupSeriesIterator wB wA)
     = [(10, 1), (20, 2)]"
proof -
  let ?I = "boundedSeriesIterator_ops chunkSeriesIterator_ops"
  have tf: "dedup_tie_free ?I ?I 3 (newDedupSeriesIterator wA wB)"
    by (simp add: numeral_3_eq_3 dedup_tie_def wA_def wB_def dedup_eval_defs eval_defs)
  have em: "dedup_emitted ?I ?I 3 (newDedupSeriesIterator wA wB) = [(10, 1), (20, 2)]"
    by (simp add: numeral_3_eq_3 wA_def wB_def dedup_eval_defs eval_defs)
  from dedup_order_insensitive_without_ties[OF tf] em show ?thesis by simp
qed

section \<open>Series with a request or a chunk that fails\<close>







text \<open>
  \<open>label_groups\<close> loses no series: the groups in their order make up the store again,
  the members of a group have the label set of its first member, and the label sets of
  the groups are the label sets of the store with the repetitions of neighbours left out.
\<close>

lemma label_groups_concat: "concat (label_groups ss) = ss"
  by (induction ss rule: label_groups.induct) simp_all

lemma label_groups_members:
  "g \<in> set (label_groups ss) \<Longrightarrow> g \<noteq> [] \<and> (\<forall>x \<in> set g. Labels x = Labels (hd g))"
proof (induction ss rule: label_groups.induct)
  case 1
  then show ?case by simp
next
  case (2 x xs)
  let ?P = "\<lambda>y. CompareLabels (Labels x) (Labels y) = 0"
  from "2.prems" have "g = x # takeWhile ?P xs \<or> g \<in> set (label_groups (dropWhile ?P xs))"
    by simp
  then show ?case
  proof
    assume g: "g = x # takeWhile ?P xs"
    have tw: "Labels y = Labels x" if "y \<in> set (takeWhile ?P xs)" for y
    proof -
      from set_takeWhileD[OF that] have "CompareLabels (Labels x) (Labels y) = 0" by simp
      then show ?thesis by (simp add: CompareLabels_def split: if_splits)
    qed
    show ?thesis
      unfolding g
    proof (intro conjI ballI)
      show "x # takeWhile ?P xs \<noteq> []" by simp
    next
      fix y
      assume "y \<in> set (x # takeWhile ?P xs)"
      then have "y = x \<or> y \<in> set (takeWhile ?P xs)" by simp
      then show "Labels y = Labels (hd (x # takeWhile ?P xs))"
        by (metis tw list.sel(1))
    qed
  next
    assume "g \<in> set (label_groups (dropWhile ?P xs))"
    then show ?thesis by (rule "2.IH")
  qed
qed


text \<open>
  \<open>sort_key MinTime\<close> is a sort of the kind \<open>sorts_by_MinTime\<close> asks for. With such a
  sort the first chunk of the series of a group is a chunk of the group with the least
  \<^verbatim>\<open>MinTime\<close>.
\<close>

lemma count_list_insort_key:
  "count_list (insort_key f x ys) c = count_list (x # ys) c"
  by (induction ys) auto

lemma count_list_sort_key: "count_list (sort_key f xs) c = count_list xs c"
  by (induction xs) (simp_all add: count_list_insort_key)

lemma sort_key_sorts_by_MinTime: "sorts_by_MinTime (sort_key MinTime)"
  by (simp add: sorts_by_MinTime_def count_list_sort_key)

lemma sorts_by_MinTime_set:
  assumes "sorts_by_MinTime sort_Slice"
  shows "set (sort_Slice xs) = set xs"
proof -
  from assms have "count_list (sort_Slice xs) c = count_list xs c" for c
    by (simp add: sorts_by_MinTime_def)
  then have "(count_list (sort_Slice xs) c = 0) = (count_list xs c = 0)" for c by simp
  then show ?thesis by (auto simp only: count_list_0_iff)
qed

lemma loop_hd:
  "ret \<noteq> [] \<Longrightarrow> removeExactDuplicates_loop str ret cs \<noteq> []
     \<and> hd (removeExactDuplicates_loop str ret cs) = hd ret"
  by (induction cs arbitrary: ret) simp_all

lemma removeExactDuplicates_hd:
  assumes "xs \<noteq> []"
  shows "removeExactDuplicates str xs \<noteq> []" and "hd (removeExactDuplicates str xs) = hd xs"
  using assms loop_hd[of "[hd xs]" str "tl xs"] by (simp_all add: removeExactDuplicates_def)

lemma group_series_first_chunk:
  assumes "sorts_by_MinTime sort_Slice" and "concat (map Chunks g) \<noteq> []"
  shows "cs_chunks (group_series sort_Slice str lo hi ags g) \<noteq> []"
    and "hd (cs_chunks (group_series sort_Slice str lo hi ags g)) \<in> set (concat (map Chunks g))"
    and "\<forall>c \<in> set (concat (map Chunks g)).
           MinTime (hd (cs_chunks (group_series sort_Slice str lo hi ags g))) \<le> MinTime c"
proof -
  let ?xs = "concat (map Chunks g)"
  let ?ys = "sort_Slice ?xs"
  note st = sorts_by_MinTime_set[OF assms(1), of ?xs]
  from assms(2) st have ne: "?ys \<noteq> []" by (metis set_empty)
  have cs: "cs_chunks (group_series sort_Slice str lo hi ags g) = removeExactDuplicates str ?ys"
    by (simp add: group_series_def newChunkSeries_def)
  from removeExactDuplicates_hd[OF ne, of str]
  have h: "removeExactDuplicates str ?ys \<noteq> []" "hd (removeExactDuplicates str ?ys) = hd ?ys"
    by simp_all
  from h(1) show "cs_chunks (group_series sort_Slice str lo hi ags g) \<noteq> []" by (simp add: cs)
  from ne have "hd ?ys \<in> set ?ys" by simp
  with st show "hd (cs_chunks (group_series sort_Slice str lo hi ags g)) \<in> set ?xs"
    by (simp add: cs h(2))
  from assms(1) have so: "sorted (map MinTime ?ys)" by (simp add: sorts_by_MinTime_def)
  have "MinTime (hd ?ys) \<le> MinTime c" if "c \<in> set ?ys" for c
  proof (cases ?ys)
    case Nil
    with ne show ?thesis by simp
  next
    case (Cons y ys)
    with so that show ?thesis by auto
  qed
  with st show "\<forall>c \<in> set ?xs. MinTime (hd (cs_chunks (group_series sort_Slice str lo hi ags g))) \<le> MinTime c"
    by (simp add: cs h(2))
qed

text \<open>
  The iterator of a series is an \<^verbatim>\<open>errSeriesIterator\<close> for a request that is not
  resolvable, and a bounded iterator over the cursors of the chunks for a request of
  count, sum, min or max or of the pair of sum and count. Before any advance the error
  of such an iterator is the error of the cursor of its first chunk; the cursor of a
  chunk has an error from the start when the chunk has no payload to use or the payload
  has an encoding tag that is not XOR.
\<close>

lemma getFirstIterator_one: "getFirstIterator [p] = spec_only_cursor p"
  by (cases p) (simp_all add: spec_only_cursor_def spec_payload_cursor_def)


lemma Iterator_chunkwise:
  assumes "spec_chunkwise (cs_aggrs cs)"
  shows "chunkSeries_Iterator D cs =
           BoundedIterator (newBoundedSeriesIterator
             (newChunkSeriesIterator (map (spec_cursor D (cs_aggrs cs)) (cs_chunks cs)))
             (cs_mint cs) (cs_maxt cs))"
proof -
  have p: "(if Raw c \<noteq> None then getFirstIterator [Raw c]
            else NewAverageChunkIterator D (getFirstIterator [Count c]) (getFirstIterator [Sum c]))
           = spec_average_cursor D c" for c
    by (cases "Raw c") (simp_all add: spec_average_cursor_def getFirstIterator_one spec_only_cursor_def)
  from assms consider k where "k \<in> {Aggr_COUNT, Aggr_SUM, Aggr_MIN, Aggr_MAX}" "cs_aggrs cs = [k]"
    | "cs_aggrs cs = [Aggr_SUM, Aggr_COUNT]" | "cs_aggrs cs = [Aggr_COUNT, Aggr_SUM]"
    by (auto simp add: spec_chunkwise_def)
  then show ?thesis
  proof cases
    case 1
    then show ?thesis
      by (auto simp: chunkSeries_Iterator_def getFirstIterator_two spec_cursor_def[abs_def]
            spec_chunk_cursor_def[abs_def] spec_matching_payload_def)
  next
    case 2
    then show ?thesis
      by (simp add: chunkSeries_Iterator_def spec_cursor_def[abs_def] p del: not_None_eq)
  next
    case 3
    then show ?thesis
      by (simp add: chunkSeries_Iterator_def spec_cursor_def[abs_def] p del: not_None_eq)
  qed
qed







lemma spec_chunk_cursor_cur: "cur (spec_chunk_cursor k c) = (0, 0)"
  by (simp add: spec_chunk_cursor_def spec_payload_cursor_def xorIterator_def errChunkIterator_def
        split: option.splits sum.splits)

lemmas series_eval_defs =
  chunkSeries_Iterator_def newChunkSeries_def newChunkSeriesIterator_def seriesIt_ops_def
  iterator_Err_def iterator_Next_def iterator_At_def iterator_Seek_def errSeriesIterator_def
  FromData_def chunkEncoding_def EncXOR_def unit_downsample_def
  wGood_def wBad_def wCut_def wJob_def

text \<open>
  \<^verbatim>\<open>Seek\<close> on a series whose first chunk has failed: \<^verbatim>\<open>chunkSeriesIterator.Seek\<close>
  reads \<^verbatim>\<open>At\<close> of the failed cursor, which is \<^verbatim>\<open>(0, 0)\<close>, before it advances, so it
  returns true for every target that is not above 0 when the window starts at or below
  0, with a sample that is in no chunk. \<^verbatim>\<open>Next\<close> reads a cursor that was never
  advanced in the same way when it moves on to the next chunk. The \<^verbatim>\<open>Seek\<close> of
  \<^verbatim>\<open>errSeriesIterator\<close> itself returns false.
\<close>

lemma first_cursor_failed_Seek:
  assumes "err c0 \<noteq> None"
  shows "fst (iterator_Seek D t (BoundedIterator (newBoundedSeriesIterator (newChunkSeriesIterator (c0 # cs)) lo hi)))
     = (t \<le> hi \<and> t \<le> fst (cur c0) \<and> lo \<le> fst (cur c0))"
proof -
  let ?c = "\<lparr>chunks = c0 # cs, i = 0\<rparr>"
  from assms have cn: "chunk_Next c0 = (False, c0)"
    by (simp add: chunk_Next_def)
  from assms have nx: "chunkSeriesIterator_Next ?c = (False, ?c)"
    by (simp add: chunkSeriesIterator_Next.simps[of ?c] cn chunkSeriesIterator_Err_def chunk_Err_def)
  have sk: "chunkSeriesIterator_Seek u ?c = (u \<le> fst (cur c0), ?c)" for u
    by (simp add: chunkSeriesIterator_Seek.simps[of u ?c] nx chunkSeriesIterator_At_def chunk_At_def)
  show ?thesis
    by (cases "hi < t"; cases "t < lo")
       (auto simp add: iterator_Seek_def boundedSeriesIterator_Seek_def newBoundedSeriesIterator_def
          newChunkSeriesIterator_def seriesIt_ops_def sk)
qed

lemma failing_series_Seek:
  assumes "k \<in> {Aggr_COUNT, Aggr_SUM, Aggr_MIN, Aggr_MAX}" and "cs_aggrs cs = [k]"
    and "cs_chunks cs \<noteq> []" and "err (spec_chunk_cursor k (hd (cs_chunks cs))) \<noteq> None"
  shows "fst (iterator_Seek D t (chunkSeries_Iterator D cs))
           = (t \<le> cs_maxt cs \<and> t \<le> 0 \<and> cs_mint cs \<le> 0)"
proof -
  from assms(1,2) have w: "spec_chunkwise (cs_aggrs cs)"
    by (auto simp add: spec_chunkwise_def)
  from assms(3) obtain c rs where cr: "cs_chunks cs = c # rs" by (cases "cs_chunks cs") auto
  have e: "chunkSeries_Iterator D cs =
           BoundedIterator (newBoundedSeriesIterator
             (newChunkSeriesIterator (spec_chunk_cursor k c # map (spec_cursor D (cs_aggrs cs)) rs))
             (cs_mint cs) (cs_maxt cs))"
    by (simp add: Iterator_chunkwise[OF w] cr assms(2) spec_cursor_def)
  from assms(4) cr have f: "err (spec_chunk_cursor k c) \<noteq> None" by simp
  show ?thesis
    by (simp only: e first_cursor_failed_Seek[OF f] spec_chunk_cursor_cur fst_conv)
qed

lemma failed_chunk_Seek_zero:
  "fst (iterator_Seek unit_downsample 0
          (chunkSeries_Iterator unit_downsample (newChunkSeries (wJob ''x'') [wBad 1] 0 10 [Aggr_SUM])))
   \<and> iterator_At unit_downsample (snd (iterator_Seek unit_downsample 0
          (chunkSeries_Iterator unit_downsample (newChunkSeries (wJob ''x'') [wBad 1] 0 10 [Aggr_SUM]))))
       = (0, 0)
   \<and> iterator_Err unit_downsample
          (chunkSeries_Iterator unit_downsample (newChunkSeries (wJob ''x'') [wBad 1] 0 10 [Aggr_SUM]))
       = Some (UnknownChunkEncoding 255)"
  by (simp add: series_eval_defs eval_defs)






end
